theory Spec2Isabelle
  imports Main "HOL-Library.List_Lexorder" "HOL-Library.Char_ord"
begin

section \<open>The adjacency list (adjlist.py)\<close>

text \<open>
  An \<open>AdjacencyList\<close> object is one cell of a linked list of nodes; the cell whose name is
  \<open>None\<close> is the empty list. A cell carries a name, an auxiliary info value and the head of
  a linked list of \<open>Edge\<close> cells (destination, weight). The linked lists are HOL lists, the
  cells are records. Names are any totally ordered key (the scenarios use strings), the
  info value is whatever the caller stores (a type parameter), weights are Python integers.
  The methods update cells in place and return the head; the model returns the new list.
\<close>

datatype error = AttributeError | IndexError | TypeError | OverflowError

record 'a edge =
  dst :: 'a
  weight :: int

record ('a, 'i) node =
  name :: 'a
  info :: 'i
  edges :: "'a edge list"

type_synonym ('a, 'i) adjlist = "('a, 'i) node list"

subsection \<open>Edge sequences (class Edge)\<close>

fun Edge_add :: "('a::linorder) edge list \<Rightarrow> 'a \<Rightarrow> int \<Rightarrow> 'a edge list" where
  "Edge_add [] d w = [\<lparr>dst = d, weight = w\<rparr>]"
| "Edge_add (e # es) d w =
     (if d = dst e then e\<lparr>weight := w\<rparr> # es
      else if d < dst e then \<lparr>dst = d, weight = w\<rparr> # e # es
      else e # Edge_add es d w)"

fun Edge_delete :: "'a edge list \<Rightarrow> 'a \<Rightarrow> 'a edge list" where
  "Edge_delete [] d = []"
| "Edge_delete (e # es) d = (if d = dst e then es else e # Edge_delete es d)"

fun Edge_find :: "'a edge list \<Rightarrow> 'a \<Rightarrow> bool" where
  "Edge_find [] d = False"
| "Edge_find (e # es) d = (if d = dst e then True else Edge_find es d)"

fun Edge_cardinality :: "'a edge list \<Rightarrow> nat" where
  "Edge_cardinality [] = 0"
| "Edge_cardinality (e # es) = Edge_cardinality es + 1"

fun Edge_list :: "'a edge list \<Rightarrow> 'a \<Rightarrow> ('a \<times> 'a \<times> int) list" where
  "Edge_list [] src = []"
| "Edge_list (e # es) src = (src, dst e, weight e) # Edge_list es src"

subsection \<open>Node operations (class AdjacencyList)\<close>

text \<open>\<open>AdjacencyList(name, info)\<close>: a fresh cell with an empty tail and no edges.\<close>

definition new_node :: "'a \<Rightarrow> 'i \<Rightarrow> ('a, 'i) node" where
  "new_node nm inf0 = \<lparr>name = nm, info = inf0, edges = []\<rparr>"

text \<open>
  \<open>add_node\<close> has three branches: the empty list, \<open>name < self.name()\<close>, and everything
  else, which recurses into the tail. There is no branch for an equal name.
\<close>

fun add_node :: "('a::linorder, 'i) adjlist \<Rightarrow> 'a \<Rightarrow> 'i \<Rightarrow> ('a, 'i) adjlist" where
  "add_node [] nm inf0 = [new_node nm inf0]"
| "add_node (h # t) nm inf0 =
     (if nm < name h then new_node nm inf0 # h # t
      else h # add_node t nm inf0)"

fun delete_node :: "('a::linorder, 'i) adjlist \<Rightarrow> 'a \<Rightarrow> ('a, 'i) adjlist" where
  "delete_node [] nm = []"
| "delete_node (h # t) nm =
     (if nm = name h then t
      else if nm > name h then h # delete_node t nm
      else h # t)"

fun find_node :: "('a, 'i) adjlist \<Rightarrow> 'a \<Rightarrow> bool" where
  "find_node [] nm = False"
| "find_node (h # t) nm = (if nm = name h then True else find_node t nm)"

text \<open>
  \<open>get_node\<close> returns either the integer \<open>0\<close> or a node object. A node object is
  identified by its position in the list, counted from the cell the method is called on.
\<close>

datatype lookup = PyInt int | NodeAt nat

fun get_node :: "('a, 'i) adjlist \<Rightarrow> 'a \<Rightarrow> lookup" where
  "get_node [] nm = PyInt 0"
| "get_node (h # t) nm =
     (if nm = name h then NodeAt 0
      else (case get_node t nm of PyInt z \<Rightarrow> PyInt z | NodeAt p \<Rightarrow> NodeAt (Suc p)))"

fun node_cardinality :: "('a, 'i) adjlist \<Rightarrow> nat" where
  "node_cardinality [] = 0"
| "node_cardinality (h # t) = node_cardinality t + 1"

fun list_nodes :: "('a, 'i) adjlist \<Rightarrow> 'a list" where
  "list_nodes [] = []"
| "list_nodes (h # t) = name h # list_nodes t"

subsection \<open>Edge operations (class AdjacencyList)\<close>

text \<open>
  \<open>_add_edge\<close> and \<open>_delete_edge\<close> compare \<open>src\<close> with the name of the cell without
  testing for the empty list first: on the empty cell \<open>src == None\<close> is false and
  \<open>src > None\<close> raises \<open>TypeError\<close>.
\<close>

fun priv_add_edge :: "('a::linorder, 'i) adjlist \<Rightarrow> 'a \<Rightarrow> 'a \<Rightarrow> int \<Rightarrow> error + ('a, 'i) adjlist" where
  "priv_add_edge [] src d w = Inl TypeError"
| "priv_add_edge (h # t) src d w =
     (if src = name h then Inr (h\<lparr>edges := Edge_add (edges h) d w\<rparr> # t)
      else if src > name h then
        (case priv_add_edge t src d w of Inl e \<Rightarrow> Inl e | Inr t' \<Rightarrow> Inr (h # t'))
      else Inr (h # t))"

definition add_edge :: "('a::linorder, 'i) adjlist \<Rightarrow> 'a \<Rightarrow> 'a \<Rightarrow> int \<Rightarrow> error + ('a, 'i) adjlist" where
  "add_edge g src d w =
     (if \<not> find_node g src \<or> \<not> find_node g d then Inr g
      else priv_add_edge g src d w)"

fun find_edge :: "('a, 'i) adjlist \<Rightarrow> 'a \<Rightarrow> 'a \<Rightarrow> bool" where
  "find_edge [] src d = False"
| "find_edge (h # t) src d =
     (if src = name h then Edge_find (edges h) d else find_edge t src d)"

fun priv_delete_edge :: "('a::linorder, 'i) adjlist \<Rightarrow> 'a \<Rightarrow> 'a \<Rightarrow> error + ('a, 'i) adjlist" where
  "priv_delete_edge [] src d = Inl TypeError"
| "priv_delete_edge (h # t) src d =
     (if src = name h then Inr (h\<lparr>edges := Edge_delete (edges h) d\<rparr> # t)
      else if src > name h then
        (case priv_delete_edge t src d of Inl e \<Rightarrow> Inl e | Inr t' \<Rightarrow> Inr (h # t'))
      else Inr (h # t))"

definition delete_edge :: "('a::linorder, 'i) adjlist \<Rightarrow> 'a \<Rightarrow> 'a \<Rightarrow> error + ('a, 'i) adjlist" where
  "delete_edge g src d =
     (if \<not> find_edge g src d then Inr g else priv_delete_edge g src d)"

fun delete_edges :: "('a, 'i) adjlist \<Rightarrow> 'a \<Rightarrow> ('a, 'i) adjlist" where
  "delete_edges [] nm = []"
| "delete_edges (h # t) nm = h\<lparr>edges := Edge_delete (edges h) nm\<rparr> # delete_edges t nm"

fun edge_cardinality :: "('a, 'i) adjlist \<Rightarrow> nat" where
  "edge_cardinality [] = 0"
| "edge_cardinality (h # t) = Edge_cardinality (edges h) + edge_cardinality t"

text \<open>\<open>self_loops\<close> looks the edge up with \<open>find_edge\<close> on the cell it is called on.\<close>

fun self_loops :: "('a, 'i) adjlist \<Rightarrow> nat" where
  "self_loops [] = 0"
| "self_loops (h # t) =
     (if find_edge (h # t) (name h) (name h) then self_loops t + 1 else self_loops t)"

fun list_edges :: "('a, 'i) adjlist \<Rightarrow> ('a \<times> 'a \<times> int) list" where
  "list_edges [] = []"
| "list_edges (h # t) = Edge_list (edges h) (name h) @ list_edges t"

section \<open>Numbers: Python integers and \<open>math.inf\<close>\<close>

text \<open>
  Matrix cells and distances are Python integers or the float \<open>inf\<close>. \<open>Fin\<close> is an
  integer, \<open>PInf\<close> is \<open>inf\<close>. The order is Python's: integers compare exactly with
  \<open>inf\<close>, and every integer is below it. The operation \<open>+\<close> of the type is the sum of
  extended integers, in which a sum with \<open>inf\<close> is \<open>inf\<close>; it measures the cost of
  walks. Python's own \<open>+\<close> is \<open>py_add\<close> below.
\<close>

datatype number = Fin int | PInf

instantiation number :: "{zero, plus, linorder}"
begin

definition zero_number :: number where
  "zero_number = Fin 0"

fun plus_number :: "number \<Rightarrow> number \<Rightarrow> number" where
  "plus_number (Fin a) (Fin b) = Fin (a + b)"
| "plus_number (Fin a) PInf = PInf"
| "plus_number PInf y = PInf"

fun less_eq_number :: "number \<Rightarrow> number \<Rightarrow> bool" where
  "less_eq_number (Fin a) (Fin b) = (a \<le> b)"
| "less_eq_number x PInf = True"
| "less_eq_number PInf (Fin b) = False"

fun less_number :: "number \<Rightarrow> number \<Rightarrow> bool" where
  "less_number (Fin a) (Fin b) = (a < b)"
| "less_number (Fin a) PInf = True"
| "less_number PInf y = False"

instance
proof
  fix x y z :: number
  show "(x < y) = (x \<le> y \<and> \<not> y \<le> x)"
    by (cases x; cases y) auto
  show "x \<le> x"
    by (cases x) auto
  show "x \<le> y \<Longrightarrow> y \<le> z \<Longrightarrow> x \<le> z"
    by (cases x; cases y; cases z) auto
  show "x \<le> y \<Longrightarrow> y \<le> x \<Longrightarrow> x = y"
    by (cases x; cases y) auto
  show "x \<le> y \<or> y \<le> x"
    by (cases x; cases y) auto
qed

end

text \<open>
  Python's \<open>+\<close> on these values. Two integers add exactly. An integer added to \<open>inf\<close>
  is first converted to a float, which raises \<open>OverflowError\<close> when the integer rounds
  beyond the largest float: from \<open>2 ** 1024 - 2 ** 970\<close> on, in absolute value.
\<close>

definition float_limit :: int where
  "float_limit = 2 ^ 1024 - 2 ^ 970"

fun py_add :: "number \<Rightarrow> number \<Rightarrow> error + number" where
  "py_add (Fin a) (Fin b) = Inr (Fin (a + b))"
| "py_add (Fin a) PInf = (if float_limit \<le> \<bar>a\<bar> then Inl OverflowError else Inr PInf)"
| "py_add PInf (Fin b) = (if float_limit \<le> \<bar>b\<bar> then Inl OverflowError else Inr PInf)"
| "py_add PInf PInf = Inr PInf"

text \<open>
  A \<open>for\<close> loop whose body may raise: the loop stops at the first error.
\<close>

fun for_each :: "('x \<Rightarrow> 's \<Rightarrow> error + 's) \<Rightarrow> 'x list \<Rightarrow> 's \<Rightarrow> error + 's" where
  "for_each body [] s = Inr s"
| "for_each body (x # xs) s =
     (case body x s of Inl err \<Rightarrow> Inl err | Inr s' \<Rightarrow> for_each body xs s')"

section \<open>The adjacency matrix (adjlist.py)\<close>

type_synonym matrix = "number list list"

text \<open>\<open>matrix[i][j] = v\<close> on a list of rows; an index out of range raises \<open>IndexError\<close>.\<close>

definition set_cell :: "'v list list \<Rightarrow> nat \<Rightarrow> nat \<Rightarrow> 'v \<Rightarrow> error + 'v list list" where
  "set_cell m i j v =
     (if i < length m \<and> j < length (m ! i) then Inr (m[i := (m ! i)[j := v]])
      else Inl IndexError)"

text \<open>
  \<open>find_dst_index\<close> does not test for the empty list: there \<open>dst == None\<close> is false and
  \<open>self.tail()\<close> reads the attribute \<open>_tail\<close>, which the empty cell does not have.
\<close>

fun find_dst_index :: "('a, 'i) adjlist \<Rightarrow> 'a \<Rightarrow> error + nat" where
  "find_dst_index [] d = Inl AttributeError"
| "find_dst_index (h # t) d =
     (if d = name h then Inr 0
      else (case find_dst_index t d of Inl e \<Rightarrow> Inl e | Inr p \<Rightarrow> Inr (p + 1)))"

text \<open>The \<open>for\<close> loop of \<open>add_list_to_matrix\<close> over the edges of the node of row \<open>i\<close>.\<close>

fun add_edges_to_row :: "('a, 'i) adjlist \<Rightarrow> matrix \<Rightarrow> nat \<Rightarrow> 'a edge list \<Rightarrow> error + matrix" where
  "add_edges_to_row g m i [] = Inr m"
| "add_edges_to_row g m i (e # es) =
     (case find_dst_index g (dst e) of
        Inl err \<Rightarrow> Inl err
      | Inr dst_index \<Rightarrow>
          (case set_cell m i dst_index (Fin (weight e)) of
             Inl err \<Rightarrow> Inl err
           | Inr m' \<Rightarrow> add_edges_to_row g m' i es))"

text \<open>The \<open>while\<close> loop of \<open>add_list_to_matrix\<close>: \<open>cur\<close> is \<open>current_node\<close>.\<close>

fun add_nodes_to_matrix :: "('a, 'i) adjlist \<Rightarrow> ('a, 'i) adjlist \<Rightarrow> nat \<Rightarrow> matrix \<Rightarrow> error + matrix" where
  "add_nodes_to_matrix g [] i m = Inr m"
| "add_nodes_to_matrix g (h # t) i m =
     (case add_edges_to_row g m i (edges h) of
        Inl err \<Rightarrow> Inl err
      | Inr m' \<Rightarrow> add_nodes_to_matrix g t (i + 1) m')"

definition add_list_to_matrix :: "('a, 'i) adjlist \<Rightarrow> matrix \<Rightarrow> error + matrix" where
  "add_list_to_matrix g m = add_nodes_to_matrix g g 0 m"

text \<open>\<open>[[inf] * n for i in range(n)]\<close>: \<open>n\<close> separate rows.\<close>

definition inf_matrix :: "nat \<Rightarrow> matrix" where
  "inf_matrix n = replicate n (replicate n PInf)"

definition adjacency_matrix :: "('a, 'i) adjlist \<Rightarrow> error + matrix" where
  "adjacency_matrix g =
     (if g = [] then Inr [[]]
      else add_list_to_matrix g (inf_matrix (node_cardinality g)))"

section \<open>Floyd and Warshall (algorithm.py)\<close>

text \<open>
  The body of the triple loop of \<open>floyd\<close>. The matrix has \<open>n\<close> rows of length \<open>n\<close> and
  the three indices range over \<open>range(n)\<close>, so every read and write is in range. The
  conditional expression evaluates the sum only when its condition is false.
\<close>

definition floyd_cell :: "matrix \<Rightarrow> nat \<Rightarrow> nat \<Rightarrow> nat \<Rightarrow> error + matrix" where
  "floyd_cell m k i j =
     (if i = j \<and> m ! i ! j = PInf then Inr (m[i := (m ! i)[j := Fin 0]])
      else (case py_add (m ! i ! k) (m ! k ! j) of
              Inl err \<Rightarrow> Inl err
            | Inr s \<Rightarrow> Inr (m[i := (m ! i)[j := min (m ! i ! j) s]])))"

definition floyd_loop :: "nat \<Rightarrow> matrix \<Rightarrow> error + matrix" where
  "floyd_loop n m =
     for_each (\<lambda>k m. for_each (\<lambda>i m. for_each (\<lambda>j m. floyd_cell m k i j) [0..<n] m)
                               [0..<n] m)
              [0..<n] m"

definition floyd :: "('a, 'i) adjlist \<Rightarrow> error + matrix" where
  "floyd g =
     (let n = node_cardinality g in
      case add_list_to_matrix g (inf_matrix n) of
        Inl err \<Rightarrow> Inl err
      | Inr m \<Rightarrow> floyd_loop n m)"

text \<open>
  \<open>warshall\<close> overwrites the cells of Floyd's matrix one by one with booleans, so the
  matrix holds numbers and booleans while the loops run.
\<close>

datatype pycell = Num number | Bool bool

definition warshall_cell :: "pycell list list \<Rightarrow> nat \<Rightarrow> nat \<Rightarrow> pycell list list" where
  "warshall_cell m i j =
     m[i := (m ! i)[j := (if m ! i ! j = Num PInf then Bool False else Bool True)]]"

definition warshall_loop :: "pycell list list \<Rightarrow> pycell list list" where
  "warshall_loop m =
     fold (\<lambda>i m. fold (\<lambda>j m. warshall_cell m i j) [0..<length (m ! i)] m) [0..<length m] m"

definition warshall :: "('a, 'i) adjlist \<Rightarrow> error + pycell list list" where
  "warshall g =
     (case floyd g of
        Inl err \<Rightarrow> Inl err
      | Inr m \<Rightarrow> Inr (warshall_loop (map (map Num) m)))"

section \<open>Dijkstra and Prim (algorithm.py)\<close>

text \<open>
  Both algorithms keep their scratch values in the info field of the node objects:
  \<open>info = [distance, previous]\<close>, a number and a name or \<open>None\<close>. The lists \<open>q\<close> and
  \<open>s\<close> hold node objects; an object is identified by its position in the adjacency list,
  and the adjacency list itself is the store in which the info fields are updated.
\<close>

type_synonym 'a scratch = "number \<times> 'a option"

type_synonym 'a store = "('a, 'a scratch) adjlist"

definition set_info :: "('a, 'i) node \<Rightarrow> 'j \<Rightarrow> ('a, 'j) node" where
  "set_info nd x = \<lparr>name = name nd, info = x, edges = edges nd\<rparr>"

text \<open>
  \<open>init_single_source\<close> is called with the empty list \<open>q\<close>: it puts every node object
  into \<open>q\<close> and overwrites the info of each of them, whatever it was before.
\<close>

definition init_single_source :: "('a, 'i) adjlist \<Rightarrow> 'a \<Rightarrow> 'a store \<times> nat list" where
  "init_single_source g start_node =
     (map (\<lambda>nd. if name nd = start_node then set_info nd (Fin 0, None)
                 else set_info nd (PInf, None)) g,
      [0..<length g])"

text \<open>\<open>arr.pop(i)\<close>: the element at \<open>i\<close> and the list without it, or \<open>IndexError\<close>.\<close>

definition pop :: "'b list \<Rightarrow> nat \<Rightarrow> error + ('b \<times> 'b list)" where
  "pop arr i =
     (if i < length arr then Inr (arr ! i, take i arr @ drop (Suc i) arr)
      else Inl IndexError)"

definition get_min_index :: "'a store \<Rightarrow> nat list \<Rightarrow> nat" where
  "get_min_index st arr =
     fold (\<lambda>i min_index.
             if fst (info (st ! (arr ! i))) < fst (info (st ! (arr ! min_index)))
             then i else min_index)
          [0..<length arr] 0"

definition get_min_node :: "'a store \<Rightarrow> nat list \<Rightarrow> error + (nat \<times> nat list)" where
  "get_min_node st arr = pop arr (get_min_index st arr)"

text \<open>
  \<open>relax(u, v, weight)\<close>: \<open>v\<close> is what \<open>get_node\<close> returned. On the integer \<open>0\<close> the
  call \<open>v.info()\<close> raises \<open>AttributeError\<close>; it comes before the sum, which may raise
  \<open>OverflowError\<close>.
\<close>

fun relax :: "'a store \<Rightarrow> nat \<Rightarrow> lookup \<Rightarrow> int \<Rightarrow> error + 'a store" where
  "relax st u (PyInt z) w = Inl AttributeError"
| "relax st u (NodeAt v) w =
     (case py_add (fst (info (st ! u))) (Fin w) of
        Inl err \<Rightarrow> Inl err
      | Inr s \<Rightarrow>
          if fst (info (st ! v)) > s
          then Inr (st[v := (st ! v)\<lparr>info := (s, Some (name (st ! u)))\<rparr>])
          else Inr st)"

text \<open>The \<open>for edge in u.list_edges_object()\<close> loop of \<open>dijkstra\<close>.\<close>

fun relax_edges :: "'a store \<Rightarrow> nat \<Rightarrow> 'a edge list \<Rightarrow> error + 'a store" where
  "relax_edges st u [] = Inr st"
| "relax_edges st u (e # es) =
     (case relax st u (get_node st (dst e)) (weight e) of
        Inl err \<Rightarrow> Inl err
      | Inr st' \<Rightarrow> relax_edges st' u es)"

function dijkstra_loop :: "'a store \<Rightarrow> nat list \<Rightarrow> nat list \<Rightarrow> error + ('a store \<times> nat list)" where
  "dijkstra_loop st q s =
     (if length q > 0 then
        (case get_min_node st q of
           Inl err \<Rightarrow> Inl err
         | Inr (u, q') \<Rightarrow>
             (case relax_edges st u (edges (st ! u)) of
                Inl err \<Rightarrow> Inl err
              | Inr st' \<Rightarrow> dijkstra_loop st' q' (s @ [u])))
      else Inr (st, s))"
  by pat_completeness auto
termination
  by (relation "measure (\<lambda>(st, q, s). length q)")
     (auto simp: get_min_node_def pop_def split: if_splits)

declare dijkstra_loop.simps [simp del]

text \<open>
  \<open>get_output\<close>: a stable sort of the finished nodes by name, then one pass that writes
  \<open>distance[i]\<close> and \<open>previous[i]\<close>.
\<close>

fun get_output_loop ::
  "'a store \<Rightarrow> (nat \<times> nat) list \<Rightarrow> number option list \<Rightarrow> 'a option list
   \<Rightarrow> error + (number option list \<times> 'a option list)" where
  "get_output_loop st [] distance previous = Inr (distance, previous)"
| "get_output_loop st ((i, nd) # rest) distance previous =
     (if i < length distance \<and> i < length previous then
        get_output_loop st rest
          (distance[i := (if fst (info (st ! nd)) = Fin 0 then None else Some (fst (info (st ! nd))))])
          (previous[i := (if fst (info (st ! nd)) = Fin 0 then None else snd (info (st ! nd)))])
      else Inl IndexError)"

definition get_output ::
  "('a::linorder) store \<Rightarrow> nat list \<Rightarrow> number option list \<Rightarrow> 'a option list
   \<Rightarrow> error + (number option list \<times> 'a option list)" where
  "get_output st nodes distance previous =
     get_output_loop st (enumerate 0 (sort_key (\<lambda>nd. name (st ! nd)) nodes)) distance previous"

definition dijkstra ::
  "('a::linorder, 'i) adjlist \<Rightarrow> 'a \<Rightarrow> error + (number option list \<times> 'a option list)" where
  "dijkstra g start_node =
     (let n = node_cardinality g;
          d = replicate n None;
          e = replicate n None;
          (st, q) = init_single_source g start_node
      in case dijkstra_loop st q [] of
           Inl err \<Rightarrow> Inl err
         | Inr (st', s) \<Rightarrow> get_output st' s d e)"

text \<open>
  The body of the edge loop of \<open>prim\<close>: \<open>v in q\<close> compares \<open>v\<close> with the members of \<open>q\<close>,
  which is false for the integer \<open>0\<close>, and the second test is then not evaluated.
\<close>

definition prim_edge :: "'a store \<Rightarrow> nat list \<Rightarrow> nat \<Rightarrow> 'a edge \<Rightarrow> 'a store" where
  "prim_edge st q u e =
     (case get_node st (dst e) of
        PyInt z \<Rightarrow> st
      | NodeAt v \<Rightarrow>
          if v \<in> set q \<and> Fin (weight e) < fst (info (st ! v))
          then st[v := (st ! v)\<lparr>info := (Fin (weight e), Some (name (st ! u)))\<rparr>]
          else st)"

fun prim_edges :: "'a store \<Rightarrow> nat list \<Rightarrow> nat \<Rightarrow> 'a edge list \<Rightarrow> 'a store" where
  "prim_edges st q u [] = st"
| "prim_edges st q u (e # es) = prim_edges (prim_edge st q u e) q u es"

function prim_loop :: "'a store \<Rightarrow> nat list \<Rightarrow> nat list \<Rightarrow> error + ('a store \<times> nat list)" where
  "prim_loop st q s =
     (if length q > 0 then
        (case get_min_node st q of
           Inl err \<Rightarrow> Inl err
         | Inr (u, q') \<Rightarrow> prim_loop (prim_edges st q' u (edges (st ! u))) q' (s @ [u]))
      else Inr (st, s))"
  by pat_completeness auto
termination
  by (relation "measure (\<lambda>(st, q, s). length q)")
     (auto simp: get_min_node_def pop_def split: if_splits)

declare prim_loop.simps [simp del]

definition prim ::
  "('a::linorder, 'i) adjlist \<Rightarrow> 'a \<Rightarrow> error + (number option list \<times> 'a option list)" where
  "prim g start_node =
     (let n = node_cardinality g;
          l = replicate n None;
          c = replicate n None;
          (st, q) = init_single_source g start_node
      in case prim_loop st q [] of
           Inl err \<Rightarrow> Inl err
         | Inr (st', s) \<Rightarrow> get_output st' s l c)"

section \<open>Scenario graphs\<close>

text \<open>A graph with the two nodes \<open>a\<close> and \<open>b\<close> and the single edge \<open>a \<rightarrow> b\<close> of weight 5.\<close>

definition graph_ab :: "(string, unit) adjlist" where
  "graph_ab =
     [\<lparr>name = ''a'', info = (), edges = [\<lparr>dst = ''b'', weight = 5\<rparr>]\<rparr>,
      \<lparr>name = ''b'', info = (), edges = []\<rparr>]"

text \<open>The Dijkstra scenario: \<open>a \<rightarrow> b\<close> (1), \<open>a \<rightarrow> c\<close> (2), \<open>b \<rightarrow> c\<close> (2).\<close>

definition graph_abc :: "(string, unit) adjlist" where
  "graph_abc =
     [\<lparr>name = ''a'', info = (), edges = [\<lparr>dst = ''b'', weight = 1\<rparr>, \<lparr>dst = ''c'', weight = 2\<rparr>]\<rparr>,
      \<lparr>name = ''b'', info = (), edges = [\<lparr>dst = ''c'', weight = 2\<rparr>]\<rparr>,
      \<lparr>name = ''c'', info = (), edges = []\<rparr>]"

text \<open>The Prim scenario, undirected: \<open>a - b\<close> (1), \<open>a - c\<close> (3), \<open>b - c\<close> (1).\<close>

definition graph_triangle :: "(string, unit) adjlist" where
  "graph_triangle =
     [\<lparr>name = ''a'', info = (), edges = [\<lparr>dst = ''b'', weight = 1\<rparr>, \<lparr>dst = ''c'', weight = 3\<rparr>]\<rparr>,
      \<lparr>name = ''b'', info = (), edges = [\<lparr>dst = ''a'', weight = 1\<rparr>, \<lparr>dst = ''c'', weight = 1\<rparr>]\<rparr>,
      \<lparr>name = ''c'', info = (), edges = [\<lparr>dst = ''a'', weight = 3\<rparr>, \<lparr>dst = ''b'', weight = 1\<rparr>]\<rparr>]"

text \<open>Two nodes and the single edge \<open>a \<rightarrow> b\<close> of weight 0.\<close>

definition graph_zero :: "(string, unit) adjlist" where
  "graph_zero =
     [\<lparr>name = ''a'', info = (), edges = [\<lparr>dst = ''b'', weight = 0\<rparr>]\<rparr>,
      \<lparr>name = ''b'', info = (), edges = []\<rparr>]"

text \<open>
  A self-loop \<open>a \<rightarrow> a\<close> of weight 5 next to the cycle \<open>a \<rightarrow> b \<rightarrow> a\<close> of cost 2; a cycle
  \<open>a \<rightarrow> b \<rightarrow> a\<close> of cost \<open>-2\<close>; and a node whose only edge points to a name that is not a
  node (what \<open>delete_node\<close> leaves behind).
\<close>

definition graph_loop :: "(string, unit) adjlist" where
  "graph_loop =
     [\<lparr>name = ''a'', info = (), edges = [\<lparr>dst = ''a'', weight = 5\<rparr>, \<lparr>dst = ''b'', weight = 1\<rparr>]\<rparr>,
      \<lparr>name = ''b'', info = (), edges = [\<lparr>dst = ''a'', weight = 1\<rparr>]\<rparr>]"

definition graph_negative :: "(string, unit) adjlist" where
  "graph_negative =
     [\<lparr>name = ''a'', info = (), edges = [\<lparr>dst = ''b'', weight = - 1\<rparr>]\<rparr>,
      \<lparr>name = ''b'', info = (), edges = [\<lparr>dst = ''a'', weight = - 1\<rparr>]\<rparr>]"

definition graph_dangling :: "(string, unit) adjlist" where
  "graph_dangling = [\<lparr>name = ''a'', info = (), edges = [\<lparr>dst = ''b'', weight = 5\<rparr>]\<rparr>]"

text \<open>
  Two nodes and the single edge \<open>a \<rightarrow> b\<close> of weight \<open>2 ^ 1024\<close>, an integer that Python does
  not convert to a float.
\<close>

definition graph_huge :: "(string, unit) adjlist" where
  "graph_huge =
     [\<lparr>name = ''a'', info = (), edges = [\<lparr>dst = ''b'', weight = 2 ^ 1024\<rparr>]\<rparr>,
      \<lparr>name = ''b'', info = (), edges = []\<rparr>]"

section \<open>Specification of shortest walks\<close>

text \<open>
  Nodes are the positions \<open>0, \<dots>, n - 1\<close> of the adjacency list. A walk from \<open>i\<close> to \<open>j\<close> is
  given by the list of the nodes it passes in between; its cost is the sum of the weights
  of its edges, which is \<open>PInf\<close> as soon as one of them is missing.
\<close>

fun walk_cost :: "(nat \<Rightarrow> nat \<Rightarrow> number) \<Rightarrow> nat \<Rightarrow> nat list \<Rightarrow> nat \<Rightarrow> number" where
  "walk_cost w i [] j = w i j"
| "walk_cost w i (x # xs) j = w i x + walk_cost w x xs j"

definition no_negative_cycle :: "(nat \<Rightarrow> nat \<Rightarrow> number) \<Rightarrow> nat \<Rightarrow> bool" where
  "no_negative_cycle w n =
     (\<forall>i<n. \<forall>xs. set xs \<subseteq> {..<n} \<longrightarrow> Fin 0 \<le> walk_cost w i xs i)"

text \<open>
  The weight of the edge from the node at position \<open>i\<close> to the node at position \<open>j\<close>,
  read off the edge list of node \<open>i\<close>; \<open>PInf\<close> when there is no such edge.
\<close>

definition edge_weight :: "('a, 'i) adjlist \<Rightarrow> nat \<Rightarrow> nat \<Rightarrow> number" where
  "edge_weight g i j =
     (case find (\<lambda>e. dst e = name (g ! j)) (edges (g ! i)) of
        None \<Rightarrow> PInf
      | Some e \<Rightarrow> Fin (weight e))"


section \<open>Notions used in the proofs\<close>

text \<open>The value \<open>warshall\<close> writes into a cell, as a function of the cell.\<close>

definition to_bool :: "pycell \<Rightarrow> pycell" where
  "to_bool c = (if c = Num PInf then Bool False else Bool True)"

text \<open>Every scratch value is \<open>(inf, None)\<close>; every edge points to a member.\<close>

definition all_inf :: "'a store \<Rightarrow> bool" where
  "all_inf st = (\<forall>nd\<in>set st. info nd = (PInf, None))"

definition closed_edges :: "('a, 'i) adjlist \<Rightarrow> bool" where
  "closed_edges g = (\<forall>nd\<in>set g. \<forall>e\<in>set (edges nd). find_node g (dst e))"

text \<open>
  A square matrix of side \<open>n\<close>; the value the body of Floyd's loop writes into the cell
  \<open>(i, j)\<close> in round \<open>k\<close> when the sum does not overflow, and the matrix after that write.
\<close>

definition mdim :: "nat \<Rightarrow> 'v list list \<Rightarrow> bool" where
  "mdim n m = (length m = n \<and> (\<forall>i<n. length (m ! i) = n))"

definition floyd_value :: "matrix \<Rightarrow> nat \<Rightarrow> nat \<Rightarrow> nat \<Rightarrow> number" where
  "floyd_value m k i j =
     (if i = j \<and> m ! i ! j = PInf then Fin 0 else min (m ! i ! j) (m ! i ! k + m ! k ! j))"

definition floyd_step :: "matrix \<Rightarrow> nat \<Rightarrow> nat \<Rightarrow> nat \<Rightarrow> matrix" where
  "floyd_step m k i j = m[i := (m ! i)[j := floyd_value m k i j]]"

text \<open>
  The invariant of Floyd's triple loop for a weight function \<open>w\<close> on \<open>n\<close> nodes, in
  round \<open>k\<close>: a diagonal cell of a node without self-loop is \<open>inf\<close> or 0 and every other
  cell is the cost of some walk that passes only nodes up to \<open>k\<close>; every cell is at
  most the cost of every walk that passes only nodes below \<open>k\<close>; after the first round
  no diagonal cell is \<open>inf\<close>. A cell that round \<open>k\<close> has visited is also at most the cost
  of every walk through \<open>k\<close>.
\<close>

definition sound_value ::
  "(nat \<Rightarrow> nat \<Rightarrow> number) \<Rightarrow> nat \<Rightarrow> nat \<Rightarrow> nat \<Rightarrow> nat \<Rightarrow> number \<Rightarrow> bool" where
  "sound_value w n k i j v =
     (if i = j \<and> w i i = PInf then v = PInf \<or> v = Fin 0
      else \<exists>xs. set xs \<subseteq> {..<n} \<and> set xs \<subseteq> {..<Suc k} \<and> v = walk_cost w i xs j)"

definition floyd_inv :: "(nat \<Rightarrow> nat \<Rightarrow> number) \<Rightarrow> nat \<Rightarrow> nat \<Rightarrow> matrix \<Rightarrow> bool" where
  "floyd_inv w n k m =
     (mdim n m
      \<and> (\<forall>i<n. \<forall>j<n. sound_value w n k i j (m ! i ! j))
      \<and> (\<forall>i<n. \<forall>j<n. \<forall>xs. set xs \<subseteq> {..<k} \<longrightarrow> m ! i ! j \<le> walk_cost w i xs j)
      \<and> (0 < k \<longrightarrow> (\<forall>i<n. m ! i ! i \<noteq> PInf)))"

definition visited :: "(nat \<Rightarrow> nat \<Rightarrow> number) \<Rightarrow> nat \<Rightarrow> matrix \<Rightarrow> nat \<Rightarrow> nat \<Rightarrow> bool" where
  "visited w k m i j =
     ((\<forall>xs. set xs \<subseteq> {..<Suc k} \<longrightarrow> m ! i ! j \<le> walk_cost w i xs j)
      \<and> (i = j \<longrightarrow> m ! i ! j \<noteq> PInf))"

text \<open>
  Every weight, multiplied by the number of nodes, stays below the limit of \<open>py_add\<close>:
  then no walk without a repeated node has a cost that overflows.
\<close>

definition small_weights :: "(nat \<Rightarrow> nat \<Rightarrow> number) \<Rightarrow> nat \<Rightarrow> bool" where
  "small_weights w n = (\<forall>i<n. \<forall>j<n. \<forall>c. w i j = Fin c \<longrightarrow> int n * \<bar>c\<bar> < float_limit)"

definition in_range :: "nat \<Rightarrow> (nat \<times> nat) list \<Rightarrow> bool" where
  "in_range n cs = (\<forall>(a, b)\<in>set cs. a < n \<and> b < n)"

section \<open>Basic facts about the container\<close>

lemma find_node_iff: "find_node g nm \<longleftrightarrow> nm \<in> set (list_nodes g)"
  by (induction g) auto

lemma list_nodes_map: "list_nodes g = map name g"
  by (induction g) auto

lemma node_cardinality_length: "node_cardinality g = length g"
  by (induction g) auto

lemma Edge_list_map: "Edge_list es src = map (\<lambda>e. (src, dst e, weight e)) es"
  by (induction es) auto

text \<open>
  The operations keep the orderings: an edge list stays strictly ascending by destination,
  and a node list stays ascending; it stays strictly ascending when the name is new.
\<close>

lemma Edge_add_dsts: "set (map dst (Edge_add es d w)) = insert d (set (map dst es))"
  by (induction es) auto

lemma Edge_add_sorted:
  "sorted_wrt (<) (map dst es) \<Longrightarrow> sorted_wrt (<) (map dst (Edge_add es d w))"
proof (induction es)
  case Nil
  then show ?case by simp
next
  case (Cons e es)
  have "\<forall>x\<in>set (map dst (Edge_add es d w)). dst e < x" if "dst e < d"
    using Cons.prems that unfolding Edge_add_dsts by auto
  with Cons show ?case by auto
qed

lemma add_node_names: "set (list_nodes (add_node g nm x)) = insert nm (set (list_nodes g))"
  by (induction g) (auto simp: new_node_def)

lemma add_node_sorted:
  "sorted (list_nodes g) \<Longrightarrow> sorted (list_nodes (add_node g nm x))"
proof (induction g)
  case Nil
  then show ?case by (simp add: new_node_def)
next
  case (Cons h t)
  have "\<forall>y\<in>set (list_nodes (add_node t nm x)). name h \<le> y" if "\<not> nm < name h"
    using Cons.prems that unfolding add_node_names by auto
  with Cons show ?case by (auto simp: new_node_def)
qed

lemma add_node_strictly_sorted:
  "sorted_wrt (<) (list_nodes g) \<Longrightarrow> \<not> find_node g nm \<Longrightarrow>
   sorted_wrt (<) (list_nodes (add_node g nm x))"
proof (induction g)
  case Nil
  then show ?case by (simp add: new_node_def)
next
  case (Cons h t)
  from Cons.prems(2) have ne: "nm \<noteq> name h" and nf: "\<not> find_node t nm"
    by (auto split: if_splits)
  have "\<forall>y\<in>set (list_nodes (add_node t nm x)). name h < y" if "\<not> nm < name h"
    using Cons.prems(1) that ne unfolding add_node_names by auto
  with Cons.IH Cons.prems(1) nf show ?case by (auto simp: new_node_def)
qed

section \<open>Adding a node\<close>

text \<open>
  C1. The docstring of \<open>add_node\<close> says that the info of a node that is already a member
  is updated. The code has no branch for an equal name: the call falls into the last
  branch and a second cell with the same name is inserted behind the first one. On the
  empty graph, two calls \<open>add_node('a')\<close> give the node list \<open>['a', 'a']\<close> with two nodes,
  which differs from the graph after one call.
\<close>

theorem add_node_duplicate_name:
  "list_nodes (add_node (add_node [] ''a'' (None :: unit option)) ''a'' None) = [''a'', ''a'']
   \<and> node_cardinality (add_node (add_node [] ''a'' (None :: unit option)) ''a'' None) = 2
   \<and> add_node (add_node [] ''a'' (None :: unit option)) ''a'' None \<noteq> add_node [] ''a'' None"
  by (simp add: new_node_def)

text \<open>The same holds in every graph: each call adds a cell, member or not.\<close>

lemma add_node_always_grows:
  "node_cardinality (add_node g nm x) = node_cardinality g + 1"
  by (induction g) auto

section \<open>Adding an edge with a missing endpoint\<close>

text \<open>
  C4. If \<open>src\<close> or \<open>dst\<close> is not a node of the graph, \<open>add_edge\<close> raises nothing and
  returns the graph as it was: the same nodes in the same order, each with the same info
  and the same edges.
\<close>

theorem add_edge_missing_endpoint:
  "\<not> find_node g src \<or> \<not> find_node g d \<Longrightarrow> add_edge g src d w = Inr g"
  by (simp add: add_edge_def)

theorem add_edge_missing_endpoint_witness:
  "find_node graph_ab ''a'' \<and> \<not> find_node graph_ab ''z''
   \<and> add_edge graph_ab ''a'' ''z'' 7 = Inr graph_ab"
proof -
  have a: "find_node graph_ab ''a''" and z: "\<not> find_node graph_ab ''z''"
    by (simp_all add: graph_ab_def)
  from z have h: "\<not> find_node graph_ab ''a'' \<or> \<not> find_node graph_ab ''z''"
    by simp
  from a z add_edge_missing_endpoint [OF h, of 7] show ?thesis by simp
qed

section \<open>Deleting a node and the edges towards it\<close>

lemma delete_node_filter:
  "sorted_wrt (<) (list_nodes g) \<Longrightarrow> delete_node g n = filter (\<lambda>nd. name nd \<noteq> n) g"
proof (induction g)
  case Nil then show ?case by simp
next
  case (Cons h t)
  have above: "\<forall>nd\<in>set t. name h < name nd"
    using Cons.prems by (auto simp: list_nodes_map)
  have st: "sorted_wrt (<) (list_nodes t)"
    using Cons.prems by simp
  show ?case
  proof (cases "n = name h")
    case True
    have "filter (\<lambda>nd. name nd \<noteq> n) t = t"
      using above True by (auto simp: filter_id_conv)
    with True show ?thesis by simp
  next
    case False
    show ?thesis
    proof (cases "n > name h")
      case True
      with False Cons.IH[OF st] show ?thesis by simp
    next
      case below: False
      have "filter (\<lambda>nd. name nd \<noteq> n) t = t"
        using above below False by (auto simp: filter_id_conv)
      with False below show ?thesis by simp
    qed
  qed
qed

lemma delete_node_cardinality:
  "sorted_wrt (<) (list_nodes g) \<Longrightarrow> find_node g n \<Longrightarrow>
   node_cardinality (delete_node g n) + 1 = node_cardinality g"
proof (induction g)
  case Nil then show ?case by simp
next
  case (Cons h t)
  show ?case
  proof (cases "n = name h")
    case True then show ?thesis by simp
  next
    case False
    with Cons.prems have mem: "find_node t n" by simp
    then have "n \<in> set (list_nodes t)" by (simp add: find_node_iff)
    with Cons.prems(1) have "name h < n" by auto
    with False mem Cons show ?thesis by simp
  qed
qed

lemma Edge_delete_filter:
  "distinct (map dst es) \<Longrightarrow> Edge_delete es d = filter (\<lambda>e. dst e \<noteq> d) es"
proof (induction es)
  case Nil then show ?case by simp
next
  case (Cons e es)
  show ?case
  proof (cases "d = dst e")
    case True
    have "filter (\<lambda>e. dst e \<noteq> d) es = es"
      using Cons.prems True by (auto simp: filter_id_conv image_iff)
    with True show ?thesis by simp
  next
    case False
    with Cons show ?thesis by simp
  qed
qed

lemma delete_edges_map:
  "\<forall>nd\<in>set g. distinct (map dst (edges nd)) \<Longrightarrow>
   delete_edges g n = map (\<lambda>nd. nd\<lparr>edges := filter (\<lambda>e. dst e \<noteq> n) (edges nd)\<rparr>) g"
  by (induction g) (auto simp: Edge_delete_filter)

lemma list_edges_filter:
  "list_edges (filter (\<lambda>nd. name nd \<noteq> n) g) = filter (\<lambda>(s, d, w). s \<noteq> n) (list_edges g)"
  by (induction g) (auto simp: Edge_list_map filter_map o_def)

text \<open>
  C6. As stated, for every graph, the claim fails: after two calls \<open>add_node('a')\<close> the list
  holds the name \<open>a\<close> twice, \<open>delete_node('a')\<close> removes the first cell only, and
  \<open>find_node('a')\<close> is still true afterwards.
\<close>

theorem delete_node_duplicate_counterexample:
  "find_node (add_node (add_node [] ''a'' (None :: unit option)) ''a'' None) ''a''
   \<and> find_node (delete_node (add_node (add_node [] ''a'' (None :: unit option)) ''a'' None) ''a'') ''a''
   \<and> node_cardinality (delete_node (add_node (add_node [] ''a'' (None :: unit option)) ''a'' None) ''a'') = 1"
  by (simp add: new_node_def)

text \<open>
  C6, amended. In a graph that satisfies the invariants of the data model (node names strictly
  ascending, and in every node no two edges with the same destination), deleting a member
  \<open>n\<close> removes exactly the node named \<open>n\<close>: \<open>find_node\<close> no longer finds it, one node less
  is counted, every other node is kept as it is (name, info and edges, in the same order),
  and so every edge of another node stays, also those towards \<open>n\<close>. A following
  \<open>delete_edges(n)\<close> removes from every node exactly the edges whose destination is \<open>n\<close>.
\<close>

theorem delete_node_then_delete_edges:
  assumes "sorted_wrt (<) (list_nodes g)"
    and "\<forall>nd\<in>set g. distinct (map dst (edges nd))"
    and "find_node g n"
  shows "\<not> find_node (delete_node g n) n
    \<and> delete_node g n = filter (\<lambda>nd. name nd \<noteq> n) g
    \<and> node_cardinality (delete_node g n) + 1 = node_cardinality g
    \<and> list_edges (delete_node g n) = filter (\<lambda>(s, d, w). s \<noteq> n) (list_edges g)
    \<and> delete_edges (delete_node g n) n =
        map (\<lambda>nd. nd\<lparr>edges := filter (\<lambda>e. dst e \<noteq> n) (edges nd)\<rparr>) (delete_node g n)"
proof -
  have f: "delete_node g n = filter (\<lambda>nd. name nd \<noteq> n) g"
    using assms(1) by (rule delete_node_filter)
  have nf: "\<not> find_node (delete_node g n) n"
    by (auto simp: f find_node_iff list_nodes_map)
  have card: "node_cardinality (delete_node g n) + 1 = node_cardinality g"
    using assms(1,3) by (rule delete_node_cardinality)
  have le: "list_edges (delete_node g n) = filter (\<lambda>(s, d, w). s \<noteq> n) (list_edges g)"
    by (simp add: f list_edges_filter)
  have "\<forall>nd\<in>set (delete_node g n). distinct (map dst (edges nd))"
    using assms(2) by (simp add: f)
  then have de: "delete_edges (delete_node g n) n =
        map (\<lambda>nd. nd\<lparr>edges := filter (\<lambda>e. dst e \<noteq> n) (edges nd)\<rparr>) (delete_node g n)"
    by (rule delete_edges_map)
  from nf f card le de show ?thesis by blast
qed

theorem delete_node_then_delete_edges_witness:
  "sorted_wrt (<) (list_nodes graph_ab)
   \<and> list_all (\<lambda>nd. distinct (map dst (edges nd))) graph_ab
   \<and> find_node graph_ab ''b''
   \<and> \<not> find_node (delete_node graph_ab ''b'') ''b''
   \<and> list_edges (delete_node graph_ab ''b'') = [(''a'', ''b'', 5)]
   \<and> delete_edges (delete_node graph_ab ''b'') ''b'' = [\<lparr>name = ''a'', info = (), edges = []\<rparr>]"
proof -
  have h1: "sorted_wrt (<) (list_nodes graph_ab)"
    by (simp add: graph_ab_def)
  have h2: "\<forall>nd\<in>set graph_ab. distinct (map dst (edges nd))"
    by (simp add: graph_ab_def)
  have h3: "find_node graph_ab ''b''"
    by (simp add: graph_ab_def)
  have "list_edges (delete_node graph_ab ''b'') = [(''a'', ''b'', 5)]"
    and "delete_edges (delete_node graph_ab ''b'') ''b'' = [\<lparr>name = ''a'', info = (), edges = []\<rparr>]"
    using delete_node_then_delete_edges [OF h1 h2 h3] by (simp_all add: graph_ab_def)
  moreover have "list_all (\<lambda>nd. distinct (map dst (edges nd))) graph_ab"
    using h2 by (simp add: list_all_iff)
  ultimately show ?thesis
    using h1 h3 delete_node_then_delete_edges [OF h1 h2 h3] by blast
qed

section \<open>Looking a node up\<close>

text \<open>
  C8. For a name that is not a member, \<open>get_node\<close> returns the integer \<open>0\<close>; for a member
  it returns the node object itself: the first cell of the list that carries the name.
\<close>

theorem get_node_sentinel:
  "(\<not> find_node g nm \<longrightarrow> get_node g nm = PyInt 0)
   \<and> (find_node g nm \<longrightarrow>
        (\<exists>p. get_node g nm = NodeAt p \<and> p < length g \<and> name (g ! p) = nm
             \<and> (\<forall>r<p. name (g ! r) \<noteq> nm)))"
proof (induction g)
  case Nil
  then show ?case by simp
next
  case (Cons h t)
  show ?case
  proof (cases "nm = name h")
    case True
    then show ?thesis by simp
  next
    case False
    show ?thesis
    proof (cases "find_node t nm")
      case absent: False
      with False Cons show ?thesis by simp
    next
      case True
      with Cons obtain p where p: "get_node t nm = NodeAt p" "p < length t"
        "name (t ! p) = nm" "\<forall>r<p. name (t ! r) \<noteq> nm"
        by auto
      have "\<forall>r<Suc p. name ((h # t) ! r) \<noteq> nm"
        using False p(4) by (auto simp: less_Suc_eq_0_disj)
      with False True p show ?thesis by simp
    qed
  qed
qed

theorem get_node_sentinel_witness:
  "\<not> find_node graph_ab ''z'' \<and> get_node graph_ab ''z'' = PyInt 0
   \<and> find_node graph_ab ''b'' \<and> get_node graph_ab ''b'' = NodeAt 1"
proof -
  have h1: "\<not> find_node graph_ab ''z''" and h2: "find_node graph_ab ''b''"
    by (simp_all add: graph_ab_def)
  have z: "get_node graph_ab ''z'' = PyInt 0"
    using get_node_sentinel [of graph_ab "''z''"] h1 by blast
  from get_node_sentinel [of graph_ab "''b''"] h2 obtain p where
    p: "get_node graph_ab ''b'' = NodeAt p" "p < length graph_ab" "name (graph_ab ! p) = ''b''"
    by blast
  from p(2) have "p = 0 \<or> p = 1"
    by (auto simp: graph_ab_def)
  moreover have "name (graph_ab ! 0) \<noteq> ''b''"
    by (simp add: graph_ab_def)
  ultimately have "p = 1" using p(3) by auto
  with p(1) have b: "get_node graph_ab ''b'' = NodeAt 1" by simp
  from h1 z h2 b show ?thesis by blast
qed

section \<open>The adjacency matrix of the empty graph\<close>

text \<open>
  C9. On the empty graph \<open>adjacency_matrix\<close> returns \<open>[[]]\<close>: a single row without any
  cell, so the matrix holds no weight.
\<close>

theorem adjacency_matrix_empty:
  "\<exists>m. adjacency_matrix ([] :: ('a, 'i) adjlist) = Inr m \<and> m = [[]] \<and> concat m = []"
  by (simp add: adjacency_matrix_def)

section \<open>Warshall is the image of Floyd\<close>

lemma warshall_row:
  assumes "i < length m" "k \<le> length (m ! i)"
  shows "fold (\<lambda>j m. warshall_cell m i j) [0..<k] m
         = m[i := map to_bool (take k (m ! i)) @ drop k (m ! i)]"
  using assms(2)
proof (induction k)
  case 0
  then show ?case by simp
next
  case (Suc k)
  let ?r = "m ! i"
  let ?r' = "map to_bool (take k ?r) @ drop k ?r"
  have k: "k < length ?r" using Suc.prems by simp
  have step: "?r'[k := to_bool (?r ! k)] = map to_bool (take (Suc k) ?r) @ drop (Suc k) ?r"
    using k by (intro nth_equalityI) (auto simp: nth_append nth_list_update min_def less_Suc_eq)
  have rk: "?r' ! k = ?r ! k"
    using k by (simp add: nth_append)
  have "fold (\<lambda>j m. warshall_cell m i j) [0..<Suc k] m = warshall_cell (m[i := ?r']) i k"
    using Suc by simp
  also have "\<dots> = m[i := ?r'[k := to_bool (?r ! k)]]"
    using assms(1) rk by (simp add: warshall_cell_def to_bool_def)
  finally show ?case using step by simp
qed

lemma warshall_rows:
  "k \<le> length m \<Longrightarrow>
   fold (\<lambda>i m. fold (\<lambda>j m. warshall_cell m i j) [0..<length (m ! i)] m) [0..<k] m
   = map (map to_bool) (take k m) @ drop k m"
proof (induction k)
  case 0
  then show ?case by simp
next
  case (Suc k)
  let ?m' = "map (map to_bool) (take k m) @ drop k m"
  have k: "k < length m" using Suc.prems by simp
  have len: "k < length ?m'" using k by simp
  have mk: "?m' ! k = m ! k" using k by (simp add: nth_append)
  have "fold (\<lambda>i m. fold (\<lambda>j m. warshall_cell m i j) [0..<length (m ! i)] m) [0..<Suc k] m
        = fold (\<lambda>j m. warshall_cell m k j) [0..<length (?m' ! k)] ?m'"
    using Suc by simp
  also have "\<dots> = ?m'[k := map to_bool (take (length (?m' ! k)) (?m' ! k)) @ drop (length (?m' ! k)) (?m' ! k)]"
    using len by (rule warshall_row) simp
  also have "\<dots> = ?m'[k := map to_bool (m ! k)]"
    by (simp add: mk)
  also have "\<dots> = map (map to_bool) (take (Suc k) m) @ drop (Suc k) m"
    using k by (intro nth_equalityI) (auto simp: nth_append nth_list_update min_def less_Suc_eq)
  finally show ?case .
qed

lemma warshall_loop_map: "warshall_loop m = map (map to_bool) m"
  using warshall_rows [of "length m" m] by (simp add: warshall_loop_def)

text \<open>
  C7. When \<open>floyd\<close> raises, \<open>warshall\<close> raises the same error. Otherwise \<open>warshall\<close>
  returns a matrix of the same shape as Floyd's, in which every cell is the boolean
  "Floyd's cell is not \<open>inf\<close>": \<open>True\<close> for a finite cost and \<open>False\<close> for \<open>inf\<close>.
\<close>

theorem warshall_is_image_of_floyd:
  "(case floyd g of
      Inl err \<Rightarrow> warshall g = Inl err
    | Inr m \<Rightarrow>
        (\<exists>r. warshall g = Inr r \<and> length r = length m
           \<and> (\<forall>i<length m. length (r ! i) = length (m ! i)
                 \<and> (\<forall>j<length (m ! i). r ! i ! j = Bool (m ! i ! j \<noteq> PInf)))))"
proof (cases "floyd g")
  case (Inl err)
  then show ?thesis by (simp add: warshall_def)
next
  case (Inr m)
  have "warshall g = Inr (map (map to_bool) (map (map Num) m))"
    using Inr by (simp add: warshall_def warshall_loop_map)
  then show ?thesis using Inr by (simp add: to_bool_def)
qed

theorem warshall_is_image_of_floyd_witness:
  "floyd graph_ab = Inr [[Fin 0, Fin 5], [PInf, Fin 0]]
   \<and> (\<exists>r. warshall graph_ab = Inr r \<and> r ! 0 ! 1 = Bool True \<and> r ! 1 ! 0 = Bool False)"
proof -
  have f: "floyd graph_ab = Inr [[Fin 0, Fin 5], [PInf, Fin 0]]"
    by code_simp
  from warshall_is_image_of_floyd [of graph_ab] obtain r where
    r: "warshall graph_ab = Inr r"
       "\<forall>i<2. \<forall>j<length ([[Fin 0, Fin 5], [PInf, Fin 0]] ! i).
          r ! i ! j = Bool ([[Fin 0, Fin 5], [PInf, Fin 0]] ! i ! j \<noteq> PInf)"
    unfolding f by auto
  from r(2) have "r ! 0 ! 1 = Bool True" "r ! 1 ! 0 = Bool False"
    by (auto dest: spec [where x = 0] spec [where x = 1])
  with f r(1) show ?thesis by blast
qed

section \<open>Dijkstra\<close>

lemma get_node_member:
  "find_node g nm \<Longrightarrow> \<exists>p. get_node g nm = NodeAt p \<and> p < length g \<and> name (g ! p) = nm"
proof (induction g)
  case Nil then show ?case by simp
next
  case (Cons h t)
  then show ?case by (cases "nm = name h") auto
qed

lemma get_node_absent: "\<not> find_node g nm \<Longrightarrow> get_node g nm = PyInt 0"
  by (induction g) auto

text \<open>
  C2. The docstring of \<open>dijkstra\<close> says that \<open>d[i]\<close> is the minimal cost from the start node
  to the \<open>i\<close>-th node and that the values are \<open>None\<close> where \<open>i\<close> is the start node.
  \<open>get_output\<close> recognises the start node by its distance \<open>0\<close>. With the edge \<open>a \<rightarrow> b\<close> of
  weight 0 and start \<open>a\<close>, the final scratch value of \<open>b\<close> is \<open>(0, 'a')\<close>, and the output is
  \<open>None\<close> at the index of \<open>b\<close> too, in both arrays.
\<close>

theorem dijkstra_zero_weight_edge:
  "dijkstra graph_zero ''a'' = Inr ([None, None], [None, None])
   \<and> (case init_single_source graph_zero ''a'' of
        (st, q) \<Rightarrow> map_sum id (\<lambda>(st', s). map info st') (dijkstra_loop st q []))
      = Inr [(Fin 0, None), (Fin 0, Some ''a'')]"
  by code_simp

text \<open>The scenario of the specification, where no edge has weight 0.\<close>

lemma dijkstra_scenario:
  "dijkstra graph_abc ''a'' = Inr ([None, Some (Fin 1), Some (Fin 2)], [None, Some ''a'', Some ''a''])"
  by code_simp

lemma get_min_index_less:
  assumes "arr \<noteq> []"
  shows "get_min_index st arr < length arr"
proof -
  have "k \<le> length arr \<Longrightarrow>
        fold (\<lambda>i min_index.
             if fst (info (st ! (arr ! i))) < fst (info (st ! (arr ! min_index)))
             then i else min_index) [0..<k] 0 < length arr" for k
    using assms by (induction k) auto
  then show ?thesis by (simp add: get_min_index_def)
qed

lemma get_min_node_Inr:
  assumes "arr \<noteq> []"
  shows "\<exists>u arr'. get_min_node st arr = Inr (u, arr') \<and> u \<in> set arr
          \<and> length arr' + 1 = length arr \<and> set arr' \<subseteq> set arr"
proof -
  let ?i = "get_min_index st arr"
  have i: "?i < length arr" using assms by (rule get_min_index_less)
  have "set (take ?i arr @ drop (Suc ?i) arr) \<subseteq> set arr"
    by (auto dest: in_set_takeD in_set_dropD)
  with i show ?thesis by (auto simp: get_min_node_def pop_def)
qed

lemma not_greater_PInf: "\<not> (x::number) > PInf"
  by (cases x) auto

lemma relax_edges_all_inf:
  assumes "all_inf st" "u < length st"
  shows "\<forall>e\<in>set es. find_node st (dst e) \<and> \<bar>weight e\<bar> < float_limit \<Longrightarrow>
         relax_edges st u es = Inr st"
proof (induction es)
  case Nil then show ?case by simp
next
  case (Cons e es)
  from Cons.prems obtain p where p: "get_node st (dst e) = NodeAt p"
    using get_node_member by fastforce
  from Cons.prems have small: "\<not> float_limit \<le> \<bar>weight e\<bar>" by simp
  have "fst (info (st ! u)) = PInf"
    using assms(1,2) by (simp add: all_inf_def)
  with small have "relax st u (NodeAt p) (weight e) = Inr st"
    by (simp add: not_greater_PInf)
  with p Cons show ?case by simp
qed

lemma dijkstra_loop_all_inf:
  assumes "all_inf st" "closed_edges st"
    and "\<forall>nd\<in>set st. \<forall>e\<in>set (edges nd). \<bar>weight e\<bar> < float_limit"
  shows "set q \<subseteq> {..<length st} \<Longrightarrow>
         \<exists>s'. dijkstra_loop st q s = Inr (st, s') \<and> length s' = length s + length q
              \<and> set s' \<subseteq> set s \<union> set q"
proof (induction "length q" arbitrary: q s)
  case 0
  then show ?case by (simp add: dijkstra_loop.simps)
next
  case (Suc n)
  then have ne: "q \<noteq> []" by auto
  from get_min_node_Inr [OF ne, of st] obtain u q' where
    m: "get_min_node st q = Inr (u, q')" "u \<in> set q" "length q' + 1 = length q" "set q' \<subseteq> set q"
    by blast
  have u: "u < length st" using m(2) Suc.prems by auto
  have "\<forall>e\<in>set (edges (st ! u)). find_node st (dst e) \<and> \<bar>weight e\<bar> < float_limit"
    using assms(2,3) u nth_mem [of u st] by (auto simp: closed_edges_def)
  with assms(1) u have r: "relax_edges st u (edges (st ! u)) = Inr st"
    by (rule relax_edges_all_inf)
  have "n = length q'" using m(3) Suc(2) by simp
  moreover have "set q' \<subseteq> {..<length st}" using m(4) Suc.prems by blast
  ultimately obtain s' where
    s': "dijkstra_loop st q' (s @ [u]) = Inr (st, s')" "length s' = length (s @ [u]) + length q'"
      "set s' \<subseteq> set (s @ [u]) \<union> set q'"
    using Suc(1) by blast
  have "dijkstra_loop st q s = dijkstra_loop st q' (s @ [u])"
    using ne m(1) r by (subst dijkstra_loop.simps) simp
  with s' m show ?case by auto
qed

lemma get_output_loop_all_inf:
  assumes "all_inf st"
  shows "set xs \<subseteq> {..<length st} \<Longrightarrow> k + length xs \<le> length d \<Longrightarrow> length e = length d \<Longrightarrow>
    \<exists>d' e'. get_output_loop st (enumerate k xs) d e = Inr (d', e')
      \<and> length d' = length d \<and> length e' = length d
      \<and> (\<forall>i<length d. d' ! i = (if k \<le> i \<and> i < k + length xs then Some PInf else d ! i))
      \<and> (\<forall>i<length d. e' ! i = (if k \<le> i \<and> i < k + length xs then None else e ! i))"
proof (induction xs arbitrary: k d e)
  case Nil
  then show ?case by auto
next
  case (Cons x xs)
  have x: "info (st ! x) = (PInf, None)"
    using assms Cons.prems(1) by (simp add: all_inf_def)
  let ?d = "d[k := Some PInf]" and ?e = "e[k := None]"
  have step: "get_output_loop st (enumerate k (x # xs)) d e
        = get_output_loop st (enumerate (Suc k) xs) ?d ?e"
    using Cons.prems x by simp
  have "set xs \<subseteq> {..<length st}" "Suc k + length xs \<le> length ?d" "length ?e = length ?d"
    using Cons.prems by auto
  from Cons.IH [OF this] obtain d' e' where
    r: "get_output_loop st (enumerate (Suc k) xs) ?d ?e = Inr (d', e')"
       "length d' = length ?d" "length e' = length ?d"
       "\<forall>i<length ?d. d' ! i = (if Suc k \<le> i \<and> i < Suc k + length xs then Some PInf else ?d ! i)"
       "\<forall>i<length ?d. e' ! i = (if Suc k \<le> i \<and> i < Suc k + length xs then None else ?e ! i)"
    by blast
  have "\<forall>i<length d. d' ! i = (if k \<le> i \<and> i < k + length (x # xs) then Some PInf else d ! i)"
    using r(4) Cons.prems by (auto simp: nth_list_update)
  moreover have "\<forall>i<length d. e' ! i = (if k \<le> i \<and> i < k + length (x # xs) then None else e ! i)"
    using r(5) Cons.prems by (auto simp: nth_list_update)
  ultimately show ?case using step r(1,2,3) by simp
qed

text \<open>
  C10. As stated the claim fails on a weight that Python does not convert to a float:
  every distance is \<open>inf\<close>, so \<open>relax\<close> adds the weight of the first edge it sees to \<open>inf\<close>,
  and for the edge \<open>a \<rightarrow> b\<close> of weight \<open>2 ^ 1024\<close> this sum raises \<open>OverflowError\<close>.
\<close>

theorem dijkstra_start_not_member_counterexample:
  "list_all (\<lambda>nd. list_all (\<lambda>e. find_node graph_huge (dst e)) (edges nd)) graph_huge
   \<and> \<not> find_node graph_huge ''z''
   \<and> dijkstra graph_huge ''z'' = Inl OverflowError"
  by code_simp

text \<open>
  C10, amended. In a graph whose edges all point to member nodes and carry a weight of
  absolute value below \<open>2 ^ 1024 - 2 ^ 970\<close>, \<open>dijkstra\<close> with a start node that is not a
  member raises no error: no node gets distance 0, no relaxation changes an info, and
  the result is \<open>inf\<close> at every index of the distance array and \<open>None\<close> at every index of
  the predecessor array.
\<close>

theorem dijkstra_start_not_member:
  assumes "\<forall>nd\<in>set g. \<forall>e\<in>set (edges nd). find_node g (dst e)"
    and "\<forall>nd\<in>set g. \<forall>e\<in>set (edges nd). \<bar>weight e\<bar> < float_limit"
    and "\<not> find_node g start_node"
  shows "dijkstra g start_node
         = Inr (replicate (node_cardinality g) (Some PInf), replicate (node_cardinality g) None)"
proof -
  let ?n = "length g"
  let ?st = "map (\<lambda>nd. set_info nd (PInf, None :: 'a option)) g"
  have names: "\<forall>nd\<in>set g. name nd \<noteq> start_node"
    using assms(3) by (auto simp: find_node_iff list_nodes_map)
  then have init: "init_single_source g start_node = (?st, [0..<?n])"
    by (simp add: init_single_source_def)
  have inf: "all_inf ?st"
    by (simp add: all_inf_def set_info_def)
  have fn: "find_node ?st x = find_node g x" for x
    by (simp add: find_node_iff list_nodes_map set_info_def o_def)
  have cl: "closed_edges ?st"
    using assms(1) unfolding closed_edges_def by (auto simp: fn) (auto simp: set_info_def)
  have sm: "\<forall>nd\<in>set ?st. \<forall>e\<in>set (edges nd). \<bar>weight e\<bar> < float_limit"
    using assms(2) by (auto simp: set_info_def)
  have "set [0..<?n] \<subseteq> {..<length ?st}" by auto
  from dijkstra_loop_all_inf [OF inf cl sm this, of "[]"] obtain s where
    s: "dijkstra_loop ?st [0..<?n] [] = Inr (?st, s)" "length s = ?n" "set s \<subseteq> {..<?n}"
    by fastforce
  let ?xs = "sort_key (\<lambda>nd. name (?st ! nd)) s"
  have "set ?xs \<subseteq> {..<length ?st}" "0 + length ?xs \<le> length (replicate ?n (None :: number option))"
    "length (replicate ?n (None :: 'a option)) = length (replicate ?n (None :: number option))"
    using s by auto
  from get_output_loop_all_inf [OF inf this] obtain d' e' where
    o: "get_output_loop ?st (enumerate 0 ?xs) (replicate ?n None) (replicate ?n None) = Inr (d', e')"
       "length d' = ?n" "length e' = ?n"
       "\<forall>i<?n. d' ! i = Some PInf" "\<forall>i<?n. e' ! i = None"
    using s(2) by auto
  have "d' = replicate ?n (Some PInf)" "e' = replicate ?n None"
    using o by (auto intro: nth_equalityI)
  with o(1) have "get_output ?st s (replicate ?n None) (replicate ?n None)
      = Inr (replicate ?n (Some PInf), replicate ?n None)"
    by (simp add: get_output_def)
  with init s(1) show ?thesis
    by (simp add: dijkstra_def node_cardinality_length Let_def)
qed

theorem dijkstra_start_not_member_witness:
  "list_all (\<lambda>nd. list_all (\<lambda>e. find_node graph_abc (dst e)) (edges nd)) graph_abc
   \<and> list_all (\<lambda>nd. list_all (\<lambda>e. \<bar>weight e\<bar> < float_limit) (edges nd)) graph_abc
   \<and> \<not> find_node graph_abc ''z''
   \<and> dijkstra graph_abc ''z'' = Inr ([Some PInf, Some PInf, Some PInf], [None, None, None])"
proof -
  have h0: "list_all (\<lambda>nd. list_all (\<lambda>e. find_node graph_abc (dst e)) (edges nd)) graph_abc"
    by (simp add: graph_abc_def)
  then have h1: "\<forall>nd\<in>set graph_abc. \<forall>e\<in>set (edges nd). find_node graph_abc (dst e)"
    by (simp add: list_all_iff)
  have s0: "list_all (\<lambda>nd. list_all (\<lambda>e. \<bar>weight e\<bar> < float_limit) (edges nd)) graph_abc"
    by (simp add: graph_abc_def float_limit_def)
  then have s1: "\<forall>nd\<in>set graph_abc. \<forall>e\<in>set (edges nd). \<bar>weight e\<bar> < float_limit"
    by (simp add: list_all_iff)
  have h2: "\<not> find_node graph_abc ''z''"
    by (simp add: graph_abc_def)
  have n: "node_cardinality graph_abc = 3"
    by (simp add: graph_abc_def)
  have "dijkstra graph_abc ''z'' = Inr ([Some PInf, Some PInf, Some PInf], [None, None, None])"
    using dijkstra_start_not_member [OF h1 s1 h2] by (simp add: n numeral_3_eq_3)
  with h0 s0 h2 show ?thesis by simp
qed

section \<open>Prim\<close>

text \<open>
  C5. Scanning an edge \<open>u \<rightarrow> v\<close> of weight \<open>w\<close>, \<open>prim\<close> writes \<open>(w, u)\<close> into the info of \<open>v\<close>
  exactly when \<open>v\<close> is still in the working set \<open>q\<close> and \<open>w\<close> is below the lowcost of \<open>v\<close>;
  the new lowcost is \<open>w\<close> alone, the cost of \<open>u\<close> is not added. No other node changes, and
  an edge to a name that is not a node changes nothing. On the undirected triangle
  \<open>a - b\<close> (1), \<open>a - c\<close> (3), \<open>b - c\<close> (1) with start \<open>a\<close> the result is
  lowcost \<open>[None, 1, 1]\<close> and closest \<open>[None, 'a', 'b']\<close>.
\<close>

theorem prim_relaxation:
  "(find_node st (dst e) \<longrightarrow>
      (\<exists>v. get_node st (dst e) = NodeAt v \<and> v < length st \<and> name (st ! v) = dst e
         \<and> prim_edge st q u e ! v =
             (if v \<in> set q \<and> Fin (weight e) < fst (info (st ! v))
              then (st ! v)\<lparr>info := (Fin (weight e), Some (name (st ! u)))\<rparr>
              else st ! v)
         \<and> length (prim_edge st q u e) = length st
         \<and> (\<forall>r<length st. r \<noteq> v \<longrightarrow> prim_edge st q u e ! r = st ! r)))
   \<and> (\<not> find_node st (dst e) \<longrightarrow> prim_edge st q u e = st)
   \<and> prim_edges st q u (e # es) = prim_edges (prim_edge st q u e) q u es
   \<and> prim graph_triangle ''a''
       = Inr ([None, Some (Fin 1), Some (Fin 1)], [None, Some ''a'', Some ''b''])"
proof -
  have 1: "find_node st (dst e) \<longrightarrow>
      (\<exists>v. get_node st (dst e) = NodeAt v \<and> v < length st \<and> name (st ! v) = dst e
         \<and> prim_edge st q u e ! v =
             (if v \<in> set q \<and> Fin (weight e) < fst (info (st ! v))
              then (st ! v)\<lparr>info := (Fin (weight e), Some (name (st ! u)))\<rparr>
              else st ! v)
         \<and> length (prim_edge st q u e) = length st
         \<and> (\<forall>r<length st. r \<noteq> v \<longrightarrow> prim_edge st q u e ! r = st ! r))"
  proof
    assume "find_node st (dst e)"
    from get_node_member [OF this] obtain v where
      v: "get_node st (dst e) = NodeAt v" "v < length st" "name (st ! v) = dst e"
      by blast
    then show "\<exists>v. get_node st (dst e) = NodeAt v \<and> v < length st \<and> name (st ! v) = dst e
         \<and> prim_edge st q u e ! v =
             (if v \<in> set q \<and> Fin (weight e) < fst (info (st ! v))
              then (st ! v)\<lparr>info := (Fin (weight e), Some (name (st ! u)))\<rparr>
              else st ! v)
         \<and> length (prim_edge st q u e) = length st
         \<and> (\<forall>r<length st. r \<noteq> v \<longrightarrow> prim_edge st q u e ! r = st ! r)"
      by (intro exI [of _ v]) (simp add: prim_edge_def)
  qed
  have 2: "\<not> find_node st (dst e) \<longrightarrow> prim_edge st q u e = st"
    by (simp add: prim_edge_def get_node_absent)
  have 3: "prim_edges st q u (e # es) = prim_edges (prim_edge st q u e) q u es"
    by simp
  have 4: "prim graph_triangle ''a''
       = Inr ([None, Some (Fin 1), Some (Fin 1)], [None, Some ''a'', Some ''b''])"
    by code_simp
  from 1 2 3 4 show ?thesis by blast
qed

theorem prim_relaxation_witness:
  "find_node (fst (init_single_source graph_triangle ''a'')) ''c''
   \<and> info (prim_edge (fst (init_single_source graph_triangle ''a'')) [1, 2] 0
              \<lparr>dst = ''c'', weight = 3\<rparr> ! 2) = (Fin 3, Some ''a'')
   \<and> \<not> find_node (fst (init_single_source graph_triangle ''a'')) ''z''
   \<and> prim_edge (fst (init_single_source graph_triangle ''a'')) [1, 2] 0
         \<lparr>dst = ''z'', weight = 3\<rparr> = fst (init_single_source graph_triangle ''a'')"
proof -
  let ?st = "fst (init_single_source graph_triangle ''a'')"
  let ?c = "\<lparr>dst = ''c'', weight = 3\<rparr>" and ?z = "\<lparr>dst = ''z'', weight = 3\<rparr>"
  have h1: "find_node ?st ''c''" and h2: "\<not> find_node ?st ''z''"
    by (simp_all add: init_single_source_def graph_triangle_def set_info_def)
  have g: "get_node ?st ''c'' = NodeAt 2"
    by (simp add: init_single_source_def graph_triangle_def set_info_def)
  have i: "info (?st ! 2) = (PInf, None)" and n: "name (?st ! 0) = ''a''"
    by (simp_all add: init_single_source_def graph_triangle_def set_info_def)
  from prim_relaxation [of ?st ?c "[1, 2]" 0] h1 g
  have "prim_edge ?st [1, 2] 0 ?c ! 2 =
          (if 2 \<in> set [1, 2 :: nat] \<and> Fin (weight ?c) < fst (info (?st ! 2))
           then (?st ! 2)\<lparr>info := (Fin (weight ?c), Some (name (?st ! 0)))\<rparr>
           else ?st ! 2)"
    by auto
  then have c: "info (prim_edge ?st [1, 2] 0 ?c ! 2) = (Fin 3, Some ''a'')"
    by (simp add: i n)
  from prim_relaxation [of ?st ?z "[1, 2]" 0] h2
  have z: "prim_edge ?st [1, 2] 0 ?z = ?st"
    by simp
  from h1 c h2 z show ?thesis by blast
qed

section \<open>Floyd\<close>

subsection \<open>Arithmetic of numbers\<close>

lemma number_add_mono: "(a::number) \<le> b \<Longrightarrow> c \<le> d \<Longrightarrow> a + c \<le> b + d"
  by (cases a; cases b; cases c; cases d) auto

lemma number_add_assoc: "((a::number) + b) + c = a + (b + c)"
  by (cases a; cases b; cases c) auto

lemma number_add_0 [simp]: "Fin 0 + (a::number) = a" "a + Fin 0 = a"
  by (cases a; simp)+

lemma number_add_nonneg: "Fin 0 \<le> a \<Longrightarrow> Fin 0 \<le> b \<Longrightarrow> Fin 0 \<le> a + b"
  by (cases a; cases b) auto

lemma number_add_finite: "(a::number) + b \<noteq> PInf \<longleftrightarrow> a \<noteq> PInf \<and> b \<noteq> PInf"
  by (cases a; cases b) auto

lemma number_le_PInf [simp]: "(a::number) \<le> PInf"
  by (cases a) auto

lemma number_PInf_le [simp]: "PInf \<le> (a::number) \<longleftrightarrow> a = PInf"
  by (cases a) auto

lemma number_le_add: "Fin 0 \<le> a \<Longrightarrow> (b::number) \<le> a + b"
  using number_add_mono [of "Fin 0" a b b] by simp

subsection \<open>Walks and their cost\<close>

lemma walk_cost_append:
  "walk_cost w i (xs @ k # ys) j = walk_cost w i xs k + walk_cost w k ys j"
  by (induction xs arbitrary: i) (auto simp: number_add_assoc)

lemma walk_cost_nonneg:
  "\<forall>i<n. \<forall>j<n. Fin 0 \<le> w i j \<Longrightarrow> i < n \<Longrightarrow> j < n \<Longrightarrow> set xs \<subseteq> {..<n} \<Longrightarrow>
   Fin 0 \<le> walk_cost w i xs j"
  by (induction xs arbitrary: i) (auto intro!: number_add_nonneg)

lemma closed_walk_nonneg:
  "no_negative_cycle w n \<Longrightarrow> i < n \<Longrightarrow> set xs \<subseteq> {..<n} \<Longrightarrow> Fin 0 \<le> walk_cost w i xs i"
  by (simp add: no_negative_cycle_def)

subsection \<open>Square matrices\<close>

lemma floyd_step_dim: "mdim n m \<Longrightarrow> mdim n (floyd_step m k i j)"
  by (cases "i < length m") (auto simp: mdim_def floyd_step_def nth_list_update)

lemma floyd_step_nth:
  assumes "mdim n m" "i < n" "j < n" "i' < n" "j' < n"
  shows "floyd_step m k i j ! i' ! j'
         = (if i' = i \<and> j' = j then floyd_value m k i j else m ! i' ! j')"
  using assms by (auto simp: mdim_def floyd_step_def floyd_value_def nth_list_update)

lemma floyd_value_le: "floyd_value m k i j \<le> m ! i ! j"
  by (auto simp: floyd_value_def)

subsection \<open>The invariant of the triple loop\<close>

lemma floyd_inv_last_part:
  assumes inv: "floyd_inv w n k m" and nn: "no_negative_cycle w n" and k: "k < n" and j: "j < n"
    and zs: "set zs \<subseteq> {..<Suc k}"
  shows "m ! k ! j \<le> walk_cost w k zs j"
proof (cases "k \<in> set zs")
  case False
  with zs have "set zs \<subseteq> {..<k}" by (auto simp: less_Suc_eq)
  with inv k j show ?thesis by (simp add: floyd_inv_def)
next
  case True
  then obtain us vs where s: "zs = us @ k # vs" "k \<notin> set vs"
    by (auto dest: split_list_last)
  with zs have vs: "set vs \<subseteq> {..<k}" and us: "set us \<subseteq> {..<n}"
    using k by (auto simp: less_Suc_eq subset_iff)
  have "m ! k ! j \<le> walk_cost w k vs j"
    using inv k j vs by (simp add: floyd_inv_def)
  also have "\<dots> \<le> walk_cost w k us k + walk_cost w k vs j"
    using closed_walk_nonneg [OF nn k us] by (rule number_le_add)
  finally show ?thesis by (simp add: s(1) walk_cost_append)
qed

lemma floyd_value_visited:
  assumes inv: "floyd_inv w n k m" and nn: "no_negative_cycle w n"
    and k: "k < n" and i: "i < n" and j: "j < n"
    and xs: "set xs \<subseteq> {..<Suc k}"
  shows "floyd_value m k i j \<le> walk_cost w i xs j"
proof (cases "i = j \<and> m ! i ! j = PInf")
  case True
  have "set xs \<subseteq> {..<n}" using xs k by auto
  from closed_walk_nonneg [OF nn i this] True show ?thesis
    by (auto simp: floyd_value_def)
next
  case False
  then have v: "floyd_value m k i j = min (m ! i ! j) (m ! i ! k + m ! k ! j)"
    by (auto simp: floyd_value_def)
  show ?thesis
  proof (cases "k \<in> set xs")
    case notin: False
    with xs have "set xs \<subseteq> {..<k}" by (auto simp: less_Suc_eq)
    with inv i j have "m ! i ! j \<le> walk_cost w i xs j" by (simp add: floyd_inv_def)
    with v show ?thesis by (simp add: min_le_iff_disj)
  next
    case True
    then obtain ys zs where s: "xs = ys @ k # zs" "k \<notin> set ys"
      by (auto dest: split_list_first)
    with xs have ys: "set ys \<subseteq> {..<k}" and zs: "set zs \<subseteq> {..<Suc k}"
      by (auto simp: less_Suc_eq)
    have a: "m ! i ! k \<le> walk_cost w i ys k"
      using inv i k ys by (simp add: floyd_inv_def)
    have b: "m ! k ! j \<le> walk_cost w k zs j"
      using inv nn k j zs by (rule floyd_inv_last_part)
    have "m ! i ! k + m ! k ! j \<le> walk_cost w i xs j"
      using number_add_mono [OF a b] by (simp add: s(1) walk_cost_append)
    with v show ?thesis by (simp add: min_le_iff_disj)
  qed
qed


lemma floyd_step_inv:
  assumes inv: "floyd_inv w n k m" and nn: "no_negative_cycle w n"
    and k: "k < n" and i: "i < n" and j: "j < n"
  shows "floyd_inv w n k (floyd_step m k i j)"
proof -
  let ?m = "floyd_step m k i j" and ?v = "floyd_value m k i j"
  from inv have dim: "mdim n m" by (simp add: floyd_inv_def)
  note nth = floyd_step_nth [OF dim i j]
  from inv have snd: "\<And>a b. a < n \<Longrightarrow> b < n \<Longrightarrow> sound_value w n k a b (m ! a ! b)"
    by (simp add: floyd_inv_def)
  from inv have low: "\<And>a b xs. a < n \<Longrightarrow> b < n \<Longrightarrow> set xs \<subseteq> {..<k} \<Longrightarrow>
      m ! a ! b \<le> walk_cost w a xs b"
    by (simp add: floyd_inv_def)
  from inv have diag: "\<And>a. 0 < k \<Longrightarrow> a < n \<Longrightarrow> m ! a ! a \<noteq> PInf"
    by (simp add: floyd_inv_def)
  have vle: "?v \<le> m ! i ! j" by (rule floyd_value_le)
  have sound: "sound_value w n k i j ?v"
  proof (cases "i = j \<and> w i i = PInf")
    case True
    with snd [OF i i] have "m ! i ! i = PInf \<or> m ! i ! i = Fin 0"
      by (auto simp: sound_value_def)
    moreover have "Fin 0 \<le> m ! i ! k + m ! k ! i"
    proof (cases "m ! i ! k + m ! k ! i = PInf")
      case True
      then show ?thesis by simp
    next
      case fin: False
      show ?thesis
      proof (cases "i = k")
        case same: True
        with snd [OF i i] True fin have "m ! i ! k = Fin 0"
          by (auto simp: sound_value_def number_add_finite)
        with same show ?thesis by simp
      next
        case other: False
        from snd [OF i k] other obtain ys where
          ys: "set ys \<subseteq> {..<n}" "m ! i ! k = walk_cost w i ys k"
          by (auto simp: sound_value_def)
        from snd [OF k i] other obtain zs where
          zs: "set zs \<subseteq> {..<n}" "m ! k ! i = walk_cost w k zs i"
          by (auto simp: sound_value_def)
        have "set (ys @ k # zs) \<subseteq> {..<n}" using ys zs k by auto
        from closed_walk_nonneg [OF nn i this] show ?thesis
          by (simp add: ys zs walk_cost_append)
      qed
    qed
    ultimately have "?v = Fin 0" using True by (auto simp: floyd_value_def min_def)
    with True show ?thesis by (auto simp: sound_value_def)
  next
    case False
    from snd [OF i j] False obtain xs where
      xs: "set xs \<subseteq> {..<n}" "set xs \<subseteq> {..<Suc k}" "m ! i ! j = walk_cost w i xs j"
      by (auto simp: sound_value_def)
    have lower: "m ! i ! j \<le> w i j"
      using low [OF i j, of "[]"] by simp
    have notdiag: "\<not> (i = j \<and> m ! i ! j = PInf)"
      using False lower by auto
    have "\<exists>xs. set xs \<subseteq> {..<n} \<and> set xs \<subseteq> {..<Suc k} \<and> ?v = walk_cost w i xs j"
    proof (cases "m ! i ! j \<le> m ! i ! k + m ! k ! j")
      case True
      with notdiag have "?v = m ! i ! j" by (auto simp: floyd_value_def min_def)
      with xs show ?thesis by auto
    next
      case less: False
      with notdiag have v: "?v = m ! i ! k + m ! k ! j" by (auto simp: floyd_value_def min_def)
      from less have fin: "m ! i ! k \<noteq> PInf" "m ! k ! j \<noteq> PInf"
        by (cases "m ! i ! k"; cases "m ! k ! j"; simp)+
      have ik: "\<not> (i = k \<and> w i i = PInf)"
      proof
        assume a: "i = k \<and> w i i = PInf"
        with snd [OF i k] fin have "m ! i ! k = Fin 0" by (auto simp: sound_value_def)
        with a less show False by simp
      qed
      have kj: "\<not> (k = j \<and> w k k = PInf)"
      proof
        assume a: "k = j \<and> w k k = PInf"
        with snd [OF k j] fin have "m ! k ! j = Fin 0" by (auto simp: sound_value_def)
        with a less show False by simp
      qed
      from snd [OF i k] ik obtain ys where
        ys: "set ys \<subseteq> {..<n}" "set ys \<subseteq> {..<Suc k}" "m ! i ! k = walk_cost w i ys k"
        by (auto simp: sound_value_def)
      from snd [OF k j] kj obtain zs where
        zs: "set zs \<subseteq> {..<n}" "set zs \<subseteq> {..<Suc k}" "m ! k ! j = walk_cost w k zs j"
        by (auto simp: sound_value_def)
      have "set (ys @ k # zs) \<subseteq> {..<n}" "set (ys @ k # zs) \<subseteq> {..<Suc k}"
        using ys zs k by auto
      moreover have "?v = walk_cost w i (ys @ k # zs) j"
        by (simp add: v ys zs walk_cost_append)
      ultimately show ?thesis by blast
    qed
    with False show ?thesis by (auto simp: sound_value_def)
  qed
  have c1: "mdim n ?m" using dim by (rule floyd_step_dim)
  have c3: "\<forall>a<n. \<forall>b<n. sound_value w n k a b (?m ! a ! b)"
  proof (intro allI impI)
    fix a b assume ab: "a < n" "b < n"
    show "sound_value w n k a b (?m ! a ! b)"
    proof (cases "a = i \<and> b = j")
      case True
      with ab have "?m ! a ! b = ?v" by (auto simp: nth)
      with sound True show ?thesis by simp
    next
      case False
      with ab have "?m ! a ! b = m ! a ! b" by (auto simp: nth)
      with snd [OF ab] show ?thesis by simp
    qed
  qed
  have le: "\<And>a b. a < n \<Longrightarrow> b < n \<Longrightarrow> ?m ! a ! b \<le> m ! a ! b"
    using vle by (simp add: nth)
  have c4: "\<forall>a<n. \<forall>b<n. \<forall>xs. set xs \<subseteq> {..<k} \<longrightarrow> ?m ! a ! b \<le> walk_cost w a xs b"
  proof (intro allI impI)
    fix a b xs assume ab: "a < n" "b < n" and xs: "set xs \<subseteq> {..<k}"
    then have "m ! a ! b \<le> walk_cost w a xs b" by (rule low)
    with le [OF ab] show "?m ! a ! b \<le> walk_cost w a xs b" by (rule order_trans)
  qed
  have c5: "0 < k \<longrightarrow> (\<forall>a<n. ?m ! a ! a \<noteq> PInf)"
  proof (intro allI impI)
    fix a assume pos: "0 < k" and a: "a < n"
    then have "m ! a ! a \<noteq> PInf" by (rule diag)
    with le [OF a a] show "?m ! a ! a \<noteq> PInf" by auto
  qed
  from c1 c3 c4 c5 show ?thesis unfolding floyd_inv_def by blast
qed

lemma floyd_step_visits:
  assumes inv: "floyd_inv w n k m" and nn: "no_negative_cycle w n"
    and k: "k < n" and i: "i < n" and j: "j < n"
  shows "visited w k (floyd_step m k i j) i j"
proof -
  from inv have dim: "mdim n m" by (simp add: floyd_inv_def)
  have eq: "floyd_step m k i j ! i ! j = floyd_value m k i j"
    using floyd_step_nth [OF dim i j i j] by simp
  have "floyd_value m k i j \<noteq> PInf" if "i = j"
  proof (cases "m ! i ! j = PInf")
    case True
    with that show ?thesis by (simp add: floyd_value_def)
  next
    case False
    with floyd_value_le [of m k i j] show ?thesis by auto
  qed
  then have b: "i = j \<longrightarrow> floyd_step m k i j ! i ! j \<noteq> PInf"
    unfolding eq by blast
  have a: "\<forall>xs. set xs \<subseteq> {..<Suc k} \<longrightarrow> floyd_step m k i j ! i ! j \<le> walk_cost w i xs j"
    unfolding eq using floyd_value_visited [OF inv nn k i j] by blast
  from a b show ?thesis unfolding visited_def by blast
qed

lemma floyd_step_keeps_visited:
  assumes dim: "mdim n m" and a: "a < n" and b: "b < n" and i: "i < n" and j: "j < n"
    and v: "visited w k m i j"
  shows "visited w k (floyd_step m l a b) i j"
proof -
  have "floyd_step m l a b ! i ! j \<le> m ! i ! j"
    using floyd_step_nth [OF dim a b i j] floyd_value_le [of m l a b] by simp
  with v show ?thesis
    unfolding visited_def by (metis number_PInf_le order_trans)
qed

subsection \<open>One sweep over all cells, and the whole loop\<close>

lemma sweep_inv:
  assumes nn: "no_negative_cycle w n" and k: "k < n"
  shows "in_range n cs \<Longrightarrow> floyd_inv w n k m \<Longrightarrow>
         floyd_inv w n k (fold (\<lambda>(i, j) m. floyd_step m k i j) cs m)"
proof (induction cs arbitrary: m)
  case Nil
  then show ?case by simp
next
  case (Cons c cs)
  obtain a b where c: "c = (a, b)" by (cases c)
  with Cons.prems have ab: "a < n" "b < n" and r: "in_range n cs"
    by (auto simp: in_range_def)
  have "floyd_inv w n k (floyd_step m k a b)"
    using Cons.prems(2) nn k ab by (rule floyd_step_inv)
  from Cons.IH [OF r this] show ?case by (simp add: c)
qed

lemma sweep_keeps_visited:
  assumes nn: "no_negative_cycle w n" and k: "k < n" and i: "i < n" and j: "j < n"
  shows "in_range n cs \<Longrightarrow> floyd_inv w n k m \<Longrightarrow> visited w k m i j \<Longrightarrow>
         visited w k (fold (\<lambda>(i, j) m. floyd_step m k i j) cs m) i j"
proof (induction cs arbitrary: m)
  case Nil
  then show ?case by simp
next
  case (Cons c cs)
  obtain a b where c: "c = (a, b)" by (cases c)
  with Cons.prems have ab: "a < n" "b < n" and r: "in_range n cs"
    by (auto simp: in_range_def)
  from Cons.prems(2) have dim: "mdim n m" by (simp add: floyd_inv_def)
  have 1: "floyd_inv w n k (floyd_step m k a b)"
    using Cons.prems(2) nn k ab by (rule floyd_step_inv)
  have 2: "visited w k (floyd_step m k a b) i j"
    using dim ab i j Cons.prems(3) by (rule floyd_step_keeps_visited)
  from Cons.IH [OF r 1 2] show ?case by (simp add: c)
qed

lemma sweep_visits:
  assumes nn: "no_negative_cycle w n" and k: "k < n"
  shows "in_range n cs \<Longrightarrow> floyd_inv w n k m \<Longrightarrow> (i, j) \<in> set cs \<Longrightarrow>
         visited w k (fold (\<lambda>(i, j) m. floyd_step m k i j) cs m) i j"
proof (induction cs arbitrary: m)
  case Nil
  then show ?case by simp
next
  case (Cons c cs)
  obtain a b where c: "c = (a, b)" by (cases c)
  with Cons.prems have ab: "a < n" "b < n" and r: "in_range n cs"
    by (auto simp: in_range_def)
  have ij: "i < n" "j < n"
    using Cons.prems(1,3) by (auto simp: in_range_def)
  have 1: "floyd_inv w n k (floyd_step m k a b)"
    using Cons.prems(2) nn k ab by (rule floyd_step_inv)
  show ?case
  proof (cases "(i, j) \<in> set cs")
    case True
    from Cons.IH [OF r 1 True] show ?thesis by (simp add: c)
  next
    case False
    with Cons.prems(3) c have e: "a = i" "b = j" by auto
    have "visited w k (floyd_step m k i j) i j"
      using Cons.prems(2) nn k ij by (rule floyd_step_visits)
    from sweep_keeps_visited [OF nn k ij r 1 [unfolded e] this] show ?thesis
      by (simp add: c e)
  qed
qed

lemma nested_fold_product:
  "fold (\<lambda>i m. fold (\<lambda>j m. f m i j) ys m) xs m
   = fold (\<lambda>(i, j) m. f m i j) (List.product xs ys) m"
  by (induction xs arbitrary: m) (simp_all add: fold_map o_def)

lemma sound_value_special:
  assumes "sound_value w n k i j v" "i = j \<and> w i i = PInf"
  shows "v = PInf \<or> v = Fin 0"
  using assms(1) unfolding sound_value_def if_P [OF assms(2)] .

lemma sound_value_walk:
  assumes "sound_value w n k i j v" "\<not> (i = j \<and> w i i = PInf)"
  shows "\<exists>xs. set xs \<subseteq> {..<n} \<and> set xs \<subseteq> {..<Suc k} \<and> v = walk_cost w i xs j"
  using assms(1) unfolding sound_value_def if_not_P [OF assms(2)] .

lemma sound_value_mono:
  assumes "sound_value w n k i j v"
  shows "sound_value w n (Suc k) i j v"
proof (cases "i = j \<and> w i i = PInf")
  case True
  with assms show ?thesis by (auto simp: sound_value_def)
next
  case False
  with assms obtain xs where
    xs: "set xs \<subseteq> {..<n}" "set xs \<subseteq> {..<Suc k}" "v = walk_cost w i xs j"
    by (auto simp: sound_value_def)
  from xs(2) have "set xs \<subseteq> {..<Suc (Suc k)}" by auto
  with xs(1,3) have "\<exists>xs. set xs \<subseteq> {..<n} \<and> set xs \<subseteq> {..<Suc (Suc k)} \<and> v = walk_cost w i xs j"
    by blast
  with False show ?thesis by (auto simp: sound_value_def)
qed

lemma floyd_inv_raise:
  assumes inv: "floyd_inv w n k m"
    and vis: "\<And>i j. i < n \<Longrightarrow> j < n \<Longrightarrow> visited w k m i j"
  shows "floyd_inv w n (Suc k) m"
proof -
  from inv have "mdim n m" by (simp add: floyd_inv_def)
  moreover have "\<forall>i<n. \<forall>j<n. sound_value w n (Suc k) i j (m ! i ! j)"
    using inv by (simp add: floyd_inv_def sound_value_mono)
  moreover have "\<forall>i<n. \<forall>j<n. \<forall>xs. set xs \<subseteq> {..<Suc k} \<longrightarrow> m ! i ! j \<le> walk_cost w i xs j"
    using vis by (simp add: visited_def)
  moreover have "0 < Suc k \<longrightarrow> (\<forall>i<n. m ! i ! i \<noteq> PInf)"
    using vis by (simp add: visited_def)
  ultimately show ?thesis unfolding floyd_inv_def by blast
qed

subsection \<open>No sum overflows\<close>

lemma float_limit_pos: "0 < float_limit"
  by (simp add: float_limit_def)

lemma number_le_Fin: "x \<le> Fin c \<Longrightarrow> \<exists>d. x = Fin d \<and> d \<le> c"
  by (cases x) auto

lemma number_add_Fin: "(a::number) + b = Fin c \<Longrightarrow> \<exists>x y. a = Fin x \<and> b = Fin y \<and> c = x + y"
  by (cases a; cases b) auto

text \<open>
  Without a cycle of negative cost, cutting the cycles out of a walk does not raise its
  cost: every walk is at least as expensive as one that repeats no node and does not come
  back to its start.
\<close>

lemma walk_drops_cycles:
  assumes nn: "no_negative_cycle w n" and i: "i < n"
  shows "set xs \<subseteq> {..<n} \<Longrightarrow>
     \<exists>ys. set ys \<subseteq> set xs \<and> distinct ys \<and> i \<notin> set ys
          \<and> walk_cost w i ys j \<le> walk_cost w i xs j"
proof (induction xs rule: length_induct)
  case (1 xs)
  note IH = "1.IH" [rule_format]
  show ?case
  proof (cases "i \<in> set xs")
    case True
    then obtain as bs where s: "xs = as @ i # bs"
      by (auto dest: split_list)
    with "1.prems" have as: "set as \<subseteq> {..<n}" and bs: "set bs \<subseteq> {..<n}"
      by auto
    have le: "walk_cost w i bs j \<le> walk_cost w i xs j"
      unfolding s walk_cost_append
      using closed_walk_nonneg [OF nn i as] by (rule number_le_add)
    have "length bs < length xs" by (simp add: s)
    from IH [OF this bs] obtain ys where
      ys: "set ys \<subseteq> set bs" "distinct ys" "i \<notin> set ys" "walk_cost w i ys j \<le> walk_cost w i bs j"
      by blast
    from ys(4) le have "walk_cost w i ys j \<le> walk_cost w i xs j" by (rule order_trans)
    moreover have "set ys \<subseteq> set xs" using ys(1) s by auto
    ultimately show ?thesis using ys(2,3) by blast
  next
    case notin: False
    show ?thesis
    proof (cases "distinct xs")
      case True
      with notin show ?thesis by blast
    next
      case False
      then obtain as bs cs x where s: "xs = as @ [x] @ bs @ [x] @ cs"
        using not_distinct_decomp by blast
      with "1.prems" have x: "x < n" and bs: "set bs \<subseteq> {..<n}"
        and short: "set (as @ x # cs) \<subseteq> {..<n}"
        by auto
      have "walk_cost w x cs j \<le> walk_cost w x bs x + walk_cost w x cs j"
        using closed_walk_nonneg [OF nn x bs] by (rule number_le_add)
      then have "walk_cost w i as x + walk_cost w x cs j
                 \<le> walk_cost w i as x + (walk_cost w x bs x + walk_cost w x cs j)"
        by (intro number_add_mono order_refl)
      then have le: "walk_cost w i (as @ x # cs) j \<le> walk_cost w i xs j"
        by (simp add: s walk_cost_append)
      have "length (as @ x # cs) < length xs" by (simp add: s)
      from IH [OF this short] obtain ys where
        ys: "set ys \<subseteq> set (as @ x # cs)" "distinct ys" "i \<notin> set ys"
            "walk_cost w i ys j \<le> walk_cost w i (as @ x # cs) j"
        by blast
      from ys(4) le have "walk_cost w i ys j \<le> walk_cost w i xs j" by (rule order_trans)
      moreover have "set ys \<subseteq> set xs" using ys(1) s by auto
      ultimately show ?thesis using ys(2,3) by blast
    qed
  qed
qed

lemma walk_cost_bound:
  assumes sw: "small_weights w n"
  shows "i < n \<Longrightarrow> j < n \<Longrightarrow> set xs \<subseteq> {..<n} \<Longrightarrow> walk_cost w i xs j = Fin c \<Longrightarrow>
         int n * \<bar>c\<bar> \<le> int (length xs + 1) * (float_limit - 1)"
proof (induction xs arbitrary: i c)
  case Nil
  then have "w i j = Fin c" by simp
  with sw Nil.prems(1,2) have "int n * \<bar>c\<bar> < float_limit"
    by (simp add: small_weights_def)
  then show ?case by simp
next
  case (Cons x xs)
  from Cons.prems(4) obtain a b where
    ab: "w i x = Fin a" "walk_cost w x xs j = Fin b" "c = a + b"
    using number_add_Fin [of "w i x" "walk_cost w x xs j" c] by auto
  from Cons.prems have x: "x < n" and xs: "set xs \<subseteq> {..<n}" by auto
  from sw Cons.prems(1) x ab(1) have 1: "int n * \<bar>a\<bar> \<le> float_limit - 1"
    by (fastforce simp: small_weights_def)
  from Cons.IH [OF x Cons.prems(2) xs ab(2)]
  have 2: "int n * \<bar>b\<bar> \<le> int (length xs + 1) * (float_limit - 1)" .
  have "int n * \<bar>c\<bar> \<le> int n * (\<bar>a\<bar> + \<bar>b\<bar>)"
    unfolding ab(3) by (intro mult_left_mono abs_triangle_ineq) simp
  also have "\<dots> = int n * \<bar>a\<bar> + int n * \<bar>b\<bar>"
    by (simp add: algebra_simps)
  also have "\<dots> \<le> (float_limit - 1) + int (length xs + 1) * (float_limit - 1)"
    using 1 2 by (rule add_mono)
  also have "\<dots> = int (length (x # xs) + 1) * (float_limit - 1)"
    by (simp add: algebra_simps)
  finally show ?case .
qed

lemma simple_walk_small:
  assumes sw: "small_weights w n" and i: "i < n" and j: "j < n"
    and q: "set q \<subseteq> {..<n}" "distinct q" "i \<notin> set q"
    and c: "walk_cost w i q j = Fin c"
  shows "\<bar>c\<bar> < float_limit"
proof -
  have "set q \<subseteq> {..<n} - {i}" using q by auto
  then have "card (set q) \<le> card ({..<n} - {i})"
    by (intro card_mono) auto
  with q(2) i have len: "length q + 1 \<le> n"
    by (simp add: distinct_card)
  have "int n * \<bar>c\<bar> \<le> int (length q + 1) * (float_limit - 1)"
    using sw i j q(1) c by (rule walk_cost_bound)
  also have "\<dots> \<le> int n * (float_limit - 1)"
    using len float_limit_pos by (intro mult_right_mono) simp_all
  finally have "\<bar>c\<bar> \<le> float_limit - 1"
    using i by simp
  then show ?thesis by simp
qed

text \<open>
  A value that is the cost of a walk, and at most the cost of every walk along the nodes
  of some walk of finite cost, lies between the costs of two walks without repeated
  node.
\<close>

lemma bounded_between:
  assumes nn: "no_negative_cycle w n" and sw: "small_weights w n"
    and a: "a < n" and b: "b < n"
    and real: "set xs \<subseteq> {..<n}" "walk_cost w a xs b = Fin c"
    and fin: "set ys \<subseteq> {..<n}" "walk_cost w a ys b = Fin d"
    and low: "\<And>q. set q \<subseteq> set ys \<Longrightarrow> Fin c \<le> walk_cost w a q b"
  shows "\<bar>c\<bar> < float_limit"
proof -
  from walk_drops_cycles [OF nn a real(1), of b] obtain q1 where
    q1: "set q1 \<subseteq> set xs" "distinct q1" "a \<notin> set q1" "walk_cost w a q1 b \<le> Fin c"
    using real(2) by auto
  from number_le_Fin [OF q1(4)] obtain c1 where c1: "walk_cost w a q1 b = Fin c1" "c1 \<le> c"
    by blast
  have "set q1 \<subseteq> {..<n}" using q1(1) real(1) by blast
  from simple_walk_small [OF sw a b this q1(2,3) c1(1)] have s1: "\<bar>c1\<bar> < float_limit" .
  from walk_drops_cycles [OF nn a fin(1), of b] obtain q2 where
    q2: "set q2 \<subseteq> set ys" "distinct q2" "a \<notin> set q2" "walk_cost w a q2 b \<le> Fin d"
    using fin(2) by auto
  from number_le_Fin [OF q2(4)] obtain c2 where c2: "walk_cost w a q2 b = Fin c2"
    by blast
  have "set q2 \<subseteq> {..<n}" using q2(1) fin(1) by blast
  from simple_walk_small [OF sw a b this q2(2,3) c2] have s2: "\<bar>c2\<bar> < float_limit" .
  from low [OF q2(1)] c2 have "c \<le> c2" by simp
  with c1(2) s1 s2 show ?thesis by linarith
qed

lemma finite_cell_to_k_small:
  assumes inv: "floyd_inv w n k m" and nn: "no_negative_cycle w n" and sw: "small_weights w n"
    and k: "k < n" and i: "i < n" and c: "m ! i ! k = Fin c"
  shows "\<bar>c\<bar> < float_limit"
proof (cases "i = k \<and> w i i = PInf")
  case True
  from inv i k have "sound_value w n k i k (m ! i ! k)" by (simp add: floyd_inv_def)
  from sound_value_special [OF this True] c have "c = 0"
    by simp
  with float_limit_pos show ?thesis by simp
next
  case False
  from inv i k have "sound_value w n k i k (m ! i ! k)" by (simp add: floyd_inv_def)
  from sound_value_walk [OF this False] c obtain xs where
    xs: "set xs \<subseteq> {..<n}" "set xs \<subseteq> {..<Suc k}" "walk_cost w i xs k = Fin c"
    by auto
  have "\<exists>ys d. set ys \<subseteq> {..<k} \<and> walk_cost w i ys k = Fin d"
  proof (cases "k \<in> set xs")
    case notin: False
    with xs(2) have "set xs \<subseteq> {..<k}" by (auto simp: less_Suc_eq)
    with xs(3) show ?thesis by blast
  next
    case True
    then obtain ys zs where s: "xs = ys @ k # zs" "k \<notin> set ys"
      by (auto dest: split_list_first)
    with xs(2) have "set ys \<subseteq> {..<k}" by (auto simp: less_Suc_eq)
    moreover from xs(3) obtain d where "walk_cost w i ys k = Fin d"
      unfolding s(1) walk_cost_append by (auto dest: number_add_Fin)
    ultimately show ?thesis by blast
  qed
  then obtain ys d where ys: "set ys \<subseteq> {..<k}" "walk_cost w i ys k = Fin d"
    by blast
  have ysn: "set ys \<subseteq> {..<n}" using ys(1) k by auto
  have low: "Fin c \<le> walk_cost w i q k" if "set q \<subseteq> set ys" for q
  proof -
    from that ys(1) have "set q \<subseteq> {..<k}" by blast
    with inv i k have "m ! i ! k \<le> walk_cost w i q k" by (simp add: floyd_inv_def)
    with c show ?thesis by simp
  qed
  from nn sw i k xs(1,3) ysn ys(2) low show ?thesis by (rule bounded_between)
qed

lemma finite_cell_from_k_small:
  assumes inv: "floyd_inv w n k m" and nn: "no_negative_cycle w n" and sw: "small_weights w n"
    and k: "k < n" and j: "j < n" and c: "m ! k ! j = Fin c"
  shows "\<bar>c\<bar> < float_limit"
proof (cases "k = j \<and> w k k = PInf")
  case True
  from inv j k have "sound_value w n k k j (m ! k ! j)" by (simp add: floyd_inv_def)
  from sound_value_special [OF this True] c have "c = 0"
    by simp
  with float_limit_pos show ?thesis by simp
next
  case False
  from inv j k have "sound_value w n k k j (m ! k ! j)" by (simp add: floyd_inv_def)
  from sound_value_walk [OF this False] c obtain xs where
    xs: "set xs \<subseteq> {..<n}" "set xs \<subseteq> {..<Suc k}" "walk_cost w k xs j = Fin c"
    by auto
  have "\<exists>ys d. set ys \<subseteq> {..<k} \<and> walk_cost w k ys j = Fin d"
  proof (cases "k \<in> set xs")
    case notin: False
    with xs(2) have "set xs \<subseteq> {..<k}" by (auto simp: less_Suc_eq)
    with xs(3) show ?thesis by blast
  next
    case True
    then obtain ys zs where s: "xs = ys @ k # zs" "k \<notin> set zs"
      by (auto dest: split_list_last)
    with xs(2) have "set zs \<subseteq> {..<k}" by (auto simp: less_Suc_eq)
    moreover from xs(3) obtain d where "walk_cost w k zs j = Fin d"
      unfolding s(1) walk_cost_append by (auto dest: number_add_Fin)
    ultimately show ?thesis by blast
  qed
  then obtain ys d where ys: "set ys \<subseteq> {..<k}" "walk_cost w k ys j = Fin d"
    by blast
  have ysn: "set ys \<subseteq> {..<n}" using ys(1) k by auto
  have low: "Fin c \<le> walk_cost w k q j" if "set q \<subseteq> set ys" for q
  proof -
    from that ys(1) have "set q \<subseteq> {..<k}" by blast
    with inv j k have "m ! k ! j \<le> walk_cost w k q j" by (simp add: floyd_inv_def)
    with c show ?thesis by simp
  qed
  from nn sw k j xs(1,3) ysn ys(2) low show ?thesis by (rule bounded_between)
qed

lemma py_add_no_overflow:
  assumes inv: "floyd_inv w n k m" and nn: "no_negative_cycle w n" and sw: "small_weights w n"
    and k: "k < n" and i: "i < n" and j: "j < n"
  shows "py_add (m ! i ! k) (m ! k ! j) = Inr (m ! i ! k + m ! k ! j)"
proof (cases "m ! i ! k")
  case (Fin a)
  from finite_cell_to_k_small [OF inv nn sw k i Fin] have "\<bar>a\<bar> < float_limit" .
  with Fin show ?thesis by (cases "m ! k ! j") simp_all
next
  case PInf
  show ?thesis
  proof (cases "m ! k ! j")
    case (Fin b)
    from finite_cell_from_k_small [OF inv nn sw k j Fin] have "\<bar>b\<bar> < float_limit" .
    with PInf Fin show ?thesis by simp
  next
    case inf: PInf
    with PInf show ?thesis by simp
  qed
qed

lemma floyd_cell_is_step:
  assumes inv: "floyd_inv w n k m" and nn: "no_negative_cycle w n" and sw: "small_weights w n"
    and k: "k < n" and i: "i < n" and j: "j < n"
  shows "floyd_cell m k i j = Inr (floyd_step m k i j)"
proof (cases "i = j \<and> m ! i ! j = PInf")
  case True
  then show ?thesis
    by (auto simp: floyd_cell_def floyd_step_def floyd_value_def)
next
  case False
  have "floyd_cell m k i j = Inr (m[i := (m ! i)[j := min (m ! i ! j) (m ! i ! k + m ! k ! j)]])"
    unfolding floyd_cell_def using False py_add_no_overflow [OF inv nn sw k i j] by auto
  moreover have "floyd_value m k i j = min (m ! i ! j) (m ! i ! k + m ! k ! j)"
    unfolding floyd_value_def using False by auto
  ultimately show ?thesis by (simp add: floyd_step_def)
qed

subsection \<open>Loops that do not raise\<close>

lemma for_each_fold:
  assumes "\<And>x s. x \<in> set xs \<Longrightarrow> P s \<Longrightarrow> body x s = Inr (f x s) \<and> P (f x s)"
  shows "P s \<Longrightarrow> for_each body xs s = Inr (fold f xs s) \<and> P (fold f xs s)"
  using assms
proof (induction xs arbitrary: s)
  case Nil
  then show ?case by simp
next
  case (Cons x xs)
  from Cons.prems(2) [of x s] Cons.prems(1) have 1: "body x s = Inr (f x s)" "P (f x s)"
    by simp_all
  have "for_each body xs (f x s) = Inr (fold f xs (f x s)) \<and> P (fold f xs (f x s))"
    using 1(2) Cons.prems(2) by (intro Cons.IH) simp_all
  with 1(1) show ?case by simp
qed

lemma for_each_append:
  "for_each body (xs @ ys) s =
     (case for_each body xs s of Inl err \<Rightarrow> Inl err | Inr s' \<Rightarrow> for_each body ys s')"
  by (induction xs arbitrary: s) (auto split: sum.splits)

lemma for_each_map: "for_each body (map g xs) s = for_each (\<lambda>x. body (g x)) xs s"
  by (induction xs arbitrary: s) (auto split: sum.splits)

lemma nested_for_each_product:
  "for_each (\<lambda>i m. for_each (\<lambda>j m. f m i j) ys m) xs m
   = for_each (\<lambda>(i, j) m. f m i j) (List.product xs ys) m"
  by (induction xs arbitrary: m) (auto simp: for_each_append for_each_map split: sum.splits)

lemma sweep_step:
  assumes nn: "no_negative_cycle w n" and sw: "small_weights w n"
    and k: "k < n" and inv: "floyd_inv w n k m"
  shows "\<exists>m'. for_each (\<lambda>i m. for_each (\<lambda>j m. floyd_cell m k i j) [0..<n] m) [0..<n] m = Inr m'
           \<and> floyd_inv w n (Suc k) m'"
proof -
  let ?cs = "List.product [0..<n] [0..<n]"
  let ?body = "\<lambda>(i, j) m. floyd_cell m k i j"
  let ?f = "\<lambda>(i, j) m. floyd_step m k i j"
  let ?m = "fold ?f ?cs m"
  have r: "in_range n ?cs" by (auto simp: in_range_def)
  have step: "?body c s = Inr (?f c s) \<and> floyd_inv w n k (?f c s)"
    if "c \<in> set ?cs" "floyd_inv w n k s" for c s
  proof -
    obtain a b where c: "c = (a, b)" by (cases c)
    with that(1) have ab: "a < n" "b < n" by auto
    from floyd_cell_is_step [OF that(2) nn sw k ab] floyd_step_inv [OF that(2) nn k ab]
    show ?thesis by (simp add: c)
  qed
  have "for_each ?body ?cs m = Inr (fold ?f ?cs m) \<and> floyd_inv w n k (fold ?f ?cs m)"
    using step inv by (rule for_each_fold [where P = "floyd_inv w n k"])
  then have run: "for_each ?body ?cs m = Inr ?m"
    by blast
  have inv': "floyd_inv w n k ?m" using nn k r inv by (rule sweep_inv)
  have vis: "visited w k ?m i j" if "i < n" "j < n" for i j
  proof -
    from that have "(i, j) \<in> set ?cs" by simp
    with nn k r inv show ?thesis by (rule sweep_visits)
  qed
  have "floyd_inv w n (Suc k) ?m"
    using inv' vis by (rule floyd_inv_raise)
  with run show ?thesis by (simp add: nested_for_each_product)
qed

lemma floyd_loop_inv:
  assumes nn: "no_negative_cycle w n" and sw: "small_weights w n" and inv: "floyd_inv w n 0 m"
  shows "\<exists>m'. floyd_loop n m = Inr m' \<and> floyd_inv w n n m'"
proof -
  let ?round = "\<lambda>k m. for_each (\<lambda>i m. for_each (\<lambda>j m. floyd_cell m k i j) [0..<n] m) [0..<n] m"
  have "k \<le> n \<Longrightarrow> \<exists>m'. for_each ?round [0..<k] m = Inr m' \<and> floyd_inv w n k m'" for k
  proof (induction k)
    case 0
    with inv show ?case by simp
  next
    case (Suc k)
    then obtain m1 where m1: "for_each ?round [0..<k] m = Inr m1" "floyd_inv w n k m1"
      by auto
    from Suc.prems have "k < n" by simp
    from sweep_step [OF nn sw this m1(2)] obtain m2 where
      m2: "?round k m1 = Inr m2" "floyd_inv w n (Suc k) m2"
      by blast
    have "for_each ?round [0..<Suc k] m = Inr m2"
      by (simp add: for_each_append m1(1) m2(1))
    with m2(2) show ?case by blast
  qed
  from this [of n] show ?thesis by (simp add: floyd_loop_def)
qed

subsection \<open>The matrix built from the adjacency list\<close>

lemma find_dst_index_nth:
  "distinct (map name g) \<Longrightarrow> j < length g \<Longrightarrow> find_dst_index g (name (g ! j)) = Inr j"
proof (induction g arbitrary: j)
  case Nil
  then show ?case by simp
next
  case (Cons h t)
  show ?case
  proof (cases j)
    case 0
    then show ?thesis by simp
  next
    case (Suc r)
    with Cons.prems have r: "r < length t" by simp
    then have "name (t ! r) \<in> name ` set t" by simp
    moreover from Cons.prems(1) have "name h \<notin> name ` set t" by simp
    ultimately have "name (t ! r) \<noteq> name h" by metis
    with Cons Suc r show ?thesis by simp
  qed
qed

lemma find_node_nth: "find_node g d \<Longrightarrow> \<exists>j<length g. name (g ! j) = d"
  by (auto simp: find_node_iff list_nodes_map in_set_conv_nth)

lemma set_cell_nth:
  assumes "mdim n m" "i < n" "j < n"
  shows "\<exists>m'. set_cell m i j v = Inr m' \<and> mdim n m'
          \<and> (\<forall>a<n. \<forall>b<n. m' ! a ! b = (if a = i \<and> b = j then v else m ! a ! b))"
  using assms by (auto simp: set_cell_def mdim_def nth_list_update)

lemma add_edges_to_row_result:
  assumes i: "i < n" and g: "length g = n" "distinct (map name g)"
  shows "mdim n m \<Longrightarrow> \<forall>e\<in>set es. find_node g (dst e) \<Longrightarrow> distinct (map dst es) \<Longrightarrow>
    \<exists>m'. add_edges_to_row g m i es = Inr m' \<and> mdim n m'
      \<and> (\<forall>a<n. \<forall>b<n. m' ! a ! b =
            (if a = i then (case find (\<lambda>e. dst e = name (g ! b)) es of
                              None \<Rightarrow> m ! a ! b | Some e \<Rightarrow> Fin (weight e))
             else m ! a ! b))"
proof (induction es arbitrary: m)
  case Nil
  then show ?case by simp
next
  case (Cons e es)
  from Cons.prems(2) obtain j where j: "j < n" "name (g ! j) = dst e"
    using find_node_nth [of g "dst e"] g(1) by auto
  have idx: "find_dst_index g (dst e) = Inr j"
    using find_dst_index_nth [OF g(2), of j] j g(1) by simp
  from set_cell_nth [OF Cons.prems(1) i j(1), of "Fin (weight e)"] obtain m1 where
    m1: "set_cell m i j (Fin (weight e)) = Inr m1" "mdim n m1"
        "\<forall>a<n. \<forall>b<n. m1 ! a ! b = (if a = i \<and> b = j then Fin (weight e) else m ! a ! b)"
    by blast
  have "\<forall>e\<in>set es. find_node g (dst e)" "distinct (map dst es)"
    using Cons.prems by simp_all
  from Cons.IH [OF m1(2) this] obtain m' where
    m': "add_edges_to_row g m1 i es = Inr m'" "mdim n m'"
        "\<forall>a<n. \<forall>b<n. m' ! a ! b =
            (if a = i then (case find (\<lambda>e. dst e = name (g ! b)) es of
                              None \<Rightarrow> m1 ! a ! b | Some e \<Rightarrow> Fin (weight e))
             else m1 ! a ! b)"
    by blast
  have run: "add_edges_to_row g m i (e # es) = Inr m'"
    by (simp add: idx m1(1) m'(1))
  have cells: "m' ! a ! b =
            (if a = i then (case find (\<lambda>e. dst e = name (g ! b)) (e # es) of
                              None \<Rightarrow> m ! a ! b | Some e \<Rightarrow> Fin (weight e))
             else m ! a ! b)" if ab: "a < n" "b < n" for a b
  proof -
    have e1: "m1 ! a ! b = (if a = i \<and> b = j then Fin (weight e) else m ! a ! b)"
      using m1(3) ab by simp
    have e2: "m' ! a ! b =
            (if a = i then (case find (\<lambda>e. dst e = name (g ! b)) es of
                              None \<Rightarrow> m1 ! a ! b | Some e \<Rightarrow> Fin (weight e))
             else m1 ! a ! b)"
      using m'(3) ab by simp
    show ?thesis
    proof (cases "dst e = name (g ! b)")
      case same: True
      with j ab g have "b = j"
        by (metis distinct_conv_nth length_map nth_map)
      have "find (\<lambda>x. dst x = name (g ! b)) es = None"
        using Cons.prems(3) same by (auto simp: find_None_iff image_iff)
      with same \<open>b = j\<close> show ?thesis unfolding e2 e1 by simp
    next
      case other: False
      with j have "b \<noteq> j" by auto
      with other show ?thesis unfolding e2 e1 by (simp split: option.splits)
    qed
  qed
  from run m'(2) cells show ?case by blast
qed

lemma add_nodes_to_matrix_result:
  assumes g: "length g = n" "distinct (map name g)"
    and cl: "\<forall>nd\<in>set g. \<forall>e\<in>set (edges nd). find_node g (dst e)"
    and de: "\<forall>nd\<in>set g. distinct (map dst (edges nd))"
  shows "mdim n m \<Longrightarrow> cur = drop i g \<Longrightarrow>
    \<exists>m'. add_nodes_to_matrix g cur i m = Inr m' \<and> mdim n m'
      \<and> (\<forall>a<n. \<forall>b<n. m' ! a ! b =
            (if i \<le> a then (case find (\<lambda>e. dst e = name (g ! b)) (edges (g ! a)) of
                              None \<Rightarrow> m ! a ! b | Some e \<Rightarrow> Fin (weight e))
             else m ! a ! b))"
proof (induction cur arbitrary: i m)
  case Nil
  then have "n \<le> i" using g(1) by simp
  then show ?case using Nil by auto
next
  case (Cons h t)
  from Cons.prems(2) have i: "i < n"
    using g(1) by (cases "i < length g") auto
  with Cons.prems(2) g(1) have h: "h = g ! i" and t: "t = drop (Suc i) g"
    by (simp_all add: Cons_nth_drop_Suc [symmetric])
  have mem: "g ! i \<in> set g" using i g(1) by simp
  have "\<forall>e\<in>set (edges h). find_node g (dst e)" "distinct (map dst (edges h))"
    using cl de mem h by auto
  from add_edges_to_row_result [OF i g Cons.prems(1) this] obtain m1 where
    m1: "add_edges_to_row g m i (edges h) = Inr m1" "mdim n m1"
        "\<forall>a<n. \<forall>b<n. m1 ! a ! b =
            (if a = i then (case find (\<lambda>e. dst e = name (g ! b)) (edges h) of
                              None \<Rightarrow> m ! a ! b | Some e \<Rightarrow> Fin (weight e))
             else m ! a ! b)"
    by blast
  from Cons.IH [OF m1(2) t] obtain m' where
    m': "add_nodes_to_matrix g t (Suc i) m1 = Inr m'" "mdim n m'"
        "\<forall>a<n. \<forall>b<n. m' ! a ! b =
            (if Suc i \<le> a then (case find (\<lambda>e. dst e = name (g ! b)) (edges (g ! a)) of
                              None \<Rightarrow> m1 ! a ! b | Some e \<Rightarrow> Fin (weight e))
             else m1 ! a ! b)"
    by blast
  have run: "add_nodes_to_matrix g (h # t) i m = Inr m'"
    by (simp add: m1(1) m'(1))
  have cells: "m' ! a ! b =
            (if i \<le> a then (case find (\<lambda>e. dst e = name (g ! b)) (edges (g ! a)) of
                              None \<Rightarrow> m ! a ! b | Some e \<Rightarrow> Fin (weight e))
             else m ! a ! b)" if ab: "a < n" "b < n" for a b
  proof -
    have e1: "m1 ! a ! b =
            (if a = i then (case find (\<lambda>e. dst e = name (g ! b)) (edges (g ! i)) of
                              None \<Rightarrow> m ! a ! b | Some e \<Rightarrow> Fin (weight e))
             else m ! a ! b)"
      using m1(3) ab h by simp
    have e2: "m' ! a ! b =
            (if Suc i \<le> a then (case find (\<lambda>e. dst e = name (g ! b)) (edges (g ! a)) of
                              None \<Rightarrow> m1 ! a ! b | Some e \<Rightarrow> Fin (weight e))
             else m1 ! a ! b)"
      using m'(3) ab by simp
    consider "a < i" | "a = i" | "Suc i \<le> a" by linarith
    then show ?thesis
      unfolding e2 e1 by cases (simp_all split: option.splits)
  qed
  from run m'(2) cells show ?case by blast
qed

lemma inf_matrix_dim: "mdim n (inf_matrix n)"
  by (simp add: mdim_def inf_matrix_def)

lemma add_list_to_matrix_result:
  assumes g: "distinct (map name g)"
    and cl: "\<forall>nd\<in>set g. \<forall>e\<in>set (edges nd). find_node g (dst e)"
    and de: "\<forall>nd\<in>set g. distinct (map dst (edges nd))"
  shows "\<exists>m. add_list_to_matrix g (inf_matrix (length g)) = Inr m \<and> mdim (length g) m
          \<and> (\<forall>a<length g. \<forall>b<length g. m ! a ! b = edge_weight g a b)"
proof -
  let ?n = "length g"
  from add_nodes_to_matrix_result [OF refl g cl de inf_matrix_dim, of g 0] obtain m where
    m: "add_nodes_to_matrix g g 0 (inf_matrix ?n) = Inr m" "mdim ?n m"
       "\<forall>a<?n. \<forall>b<?n. m ! a ! b =
            (if 0 \<le> a then (case find (\<lambda>e. dst e = name (g ! b)) (edges (g ! a)) of
                              None \<Rightarrow> inf_matrix ?n ! a ! b | Some e \<Rightarrow> Fin (weight e))
             else inf_matrix ?n ! a ! b)"
    by auto
  have "m ! a ! b = edge_weight g a b" if "a < ?n" "b < ?n" for a b
    using m(3) that by (simp add: edge_weight_def inf_matrix_def split: option.splits)
  with m(1,2) show ?thesis by (auto simp: add_list_to_matrix_def)
qed


lemma floyd_inv_initial:
  assumes "mdim n m" "\<forall>a<n. \<forall>b<n. m ! a ! b = w a b"
  shows "floyd_inv w n 0 m"
proof -
  have "sound_value w n 0 a b (m ! a ! b)" if "a < n" "b < n" for a b
  proof -
    have "m ! a ! b = walk_cost w a [] b" using assms(2) that by simp
    then have "\<exists>xs. set xs \<subseteq> {..<n} \<and> set xs \<subseteq> {..<Suc 0} \<and> m ! a ! b = walk_cost w a xs b"
      by (intro exI [of _ "[]"]) simp
    then show ?thesis using assms(2) that by (auto simp: sound_value_def)
  qed
  then show ?thesis using assms by (simp add: floyd_inv_def)
qed

lemma edge_weight_nonneg:
  assumes "\<forall>nd\<in>set g. \<forall>e\<in>set (edges nd). 0 \<le> weight e"
  shows "no_negative_cycle (edge_weight g) (length g)"
proof -
  have "Fin 0 \<le> edge_weight g a b" if "a < length g" for a b
  proof (cases "find (\<lambda>e. dst e = name (g ! b)) (edges (g ! a))")
    case None
    then show ?thesis by (simp add: edge_weight_def)
  next
    case (Some e)
    then have "e \<in> set (edges (g ! a))"
      by (auto simp: find_Some_iff)
    with assms that have "0 \<le> weight e" by auto
    with Some show ?thesis by (simp add: edge_weight_def)
  qed
  then have "\<forall>i<length g. \<forall>j<length g. Fin 0 \<le> edge_weight g i j" by simp
  then show ?thesis
    unfolding no_negative_cycle_def by (auto intro: walk_cost_nonneg)
qed

lemma edge_weight_small:
  assumes "\<forall>nd\<in>set g. \<forall>e\<in>set (edges nd). int (length g) * \<bar>weight e\<bar> < float_limit"
  shows "small_weights (edge_weight g) (length g)"
proof -
  have "int (length g) * \<bar>c\<bar> < float_limit"
    if "a < length g" "edge_weight g a b = Fin c" for a b c
  proof (cases "find (\<lambda>e. dst e = name (g ! b)) (edges (g ! a))")
    case None
    with that(2) show ?thesis by (simp add: edge_weight_def)
  next
    case (Some e)
    then have "e \<in> set (edges (g ! a))"
      by (auto simp: find_Some_iff)
    with assms that(1) have "int (length g) * \<bar>weight e\<bar> < float_limit" by auto
    with Some that(2) show ?thesis by (simp add: edge_weight_def)
  qed
  then show ?thesis unfolding small_weights_def by blast
qed

text \<open>
  C3. As stated the claim fails in four ways. A self-loop does not fix the diagonal: with
  the self-loop \<open>a \<rightarrow> a\<close> of weight 5 and the cycle \<open>a \<rightarrow> b \<rightarrow> a\<close> of cost 2 the cell \<open>(a, a)\<close>
  is 2, as the docstring of \<open>floyd\<close> says (the minimum weight to reach the node, direct or
  indirect). A cycle of negative cost makes a diagonal cell negative although the node has
  no self-loop. An edge to a name that is not a node makes \<open>find_dst_index\<close> raise. And a
  weight that Python does not convert to a float makes the sum with \<open>inf\<close> raise
  \<open>OverflowError\<close>.
\<close>

theorem floyd_self_loop_counterexample:
  "edge_weight graph_loop 0 0 = Fin 5
   \<and> floyd graph_loop = Inr [[Fin 2, Fin 1], [Fin 1, Fin 0]]
   \<and> edge_weight graph_negative 0 0 = PInf
   \<and> floyd graph_negative = Inr [[Fin (- 2), Fin (- 1)], [Fin (- 1), Fin 0]]
   \<and> floyd graph_dangling = Inl AttributeError
   \<and> floyd graph_huge = Inl OverflowError"
  by code_simp

text \<open>
  C3, amended. Take a graph that satisfies the invariants of the data model (node names
  strictly ascending, no two edges of a node with the same destination), whose edges all
  point to member nodes, in which no closed walk has negative cost, and in which the
  number of nodes times the absolute value of any weight is below \<open>2 ^ 1024 - 2 ^ 970\<close>,
  so that no sum of the run leaves the range of a float. Then \<open>floyd\<close> raises no error and
  returns an \<open>N \<times> N\<close> matrix in which every cell \<open>(i, j)\<close> is at most the cost of every walk
  from \<open>i\<close> to \<open>j\<close>; the cell is 0 when \<open>i = j\<close> and \<open>i\<close> has no self-loop, and otherwise it
  is the cost of some walk from \<open>i\<close> to \<open>j\<close>, hence the least one (for a node with a
  self-loop: the least cost of a closed walk through it, at most the weight of the
  self-loop); and the cell is \<open>inf\<close> exactly when \<open>i \<noteq> j\<close> and every walk from \<open>i\<close> to \<open>j\<close>
  misses an edge. On the graph with the single edge \<open>a \<rightarrow> b\<close> of weight 5 the result is
  \<open>[[0, 5], [inf, 0]]\<close>.
\<close>

theorem floyd_shortest_walks:
  fixes g :: "('a::linorder, 'i) adjlist"
  assumes names: "sorted_wrt (<) (list_nodes g)"
    and dsts: "\<forall>nd\<in>set g. distinct (map dst (edges nd))"
    and members: "\<forall>nd\<in>set g. \<forall>e\<in>set (edges nd). find_node g (dst e)"
    and cycles: "no_negative_cycle (edge_weight g) (length g)"
    and small: "\<forall>nd\<in>set g. \<forall>e\<in>set (edges nd). int (length g) * \<bar>weight e\<bar> < float_limit"
  shows "\<exists>m. floyd g = Inr m \<and> length m = length g
    \<and> (\<forall>i<length g. length (m ! i) = length g
        \<and> (\<forall>j<length g.
              (\<forall>xs. set xs \<subseteq> {..<length g} \<longrightarrow> m ! i ! j \<le> walk_cost (edge_weight g) i xs j)
            \<and> (if i = j \<and> edge_weight g i i = PInf then m ! i ! j = Fin 0
               else \<exists>xs. set xs \<subseteq> {..<length g} \<and> m ! i ! j = walk_cost (edge_weight g) i xs j)
            \<and> (m ! i ! j = PInf \<longleftrightarrow>
                 i \<noteq> j \<and> (\<forall>xs. set xs \<subseteq> {..<length g} \<longrightarrow>
                                walk_cost (edge_weight g) i xs j = PInf))))
    \<and> floyd graph_ab = Inr [[Fin 0, Fin 5], [PInf, Fin 0]]"
proof -
  let ?n = "length g" and ?w = "edge_weight g"
  have dn: "distinct (map name g)"
    using names by (simp add: list_nodes_map strict_sorted_iff)
  from add_list_to_matrix_result [OF dn members dsts] obtain m0 where
    m0: "add_list_to_matrix g (inf_matrix ?n) = Inr m0" "mdim ?n m0"
        "\<forall>a<?n. \<forall>b<?n. m0 ! a ! b = ?w a b"
    by blast
  note nn = cycles
  have sw: "small_weights ?w ?n" using small by (rule edge_weight_small)
  have "floyd_inv ?w ?n 0 m0" using m0(2,3) by (rule floyd_inv_initial)
  with nn sw obtain m where m: "floyd_loop ?n m0 = Inr m" and inv: "floyd_inv ?w ?n ?n m"
    using floyd_loop_inv by blast
  have run: "floyd g = Inr m"
    by (simp add: floyd_def node_cardinality_length m0(1) m)
  from inv have dim: "mdim ?n m" by (simp add: floyd_inv_def)
  have cell: "(\<forall>xs. set xs \<subseteq> {..<?n} \<longrightarrow> m ! i ! j \<le> walk_cost ?w i xs j)
            \<and> (if i = j \<and> ?w i i = PInf then m ! i ! j = Fin 0
               else \<exists>xs. set xs \<subseteq> {..<?n} \<and> m ! i ! j = walk_cost ?w i xs j)
            \<and> (m ! i ! j = PInf \<longleftrightarrow>
                 i \<noteq> j \<and> (\<forall>xs. set xs \<subseteq> {..<?n} \<longrightarrow> walk_cost ?w i xs j = PInf))"
    if ij: "i < ?n" "j < ?n" for i j
  proof -
    from inv ij have low: "\<And>xs. set xs \<subseteq> {..<?n} \<Longrightarrow> m ! i ! j \<le> walk_cost ?w i xs j"
      by (simp add: floyd_inv_def)
    from inv ij have snd: "sound_value ?w ?n ?n i j (m ! i ! j)"
      by (simp add: floyd_inv_def)
    from inv ij have diag: "i = j \<Longrightarrow> m ! i ! j \<noteq> PInf"
      by (auto simp: floyd_inv_def)
    have b: "if i = j \<and> ?w i i = PInf then m ! i ! j = Fin 0
             else \<exists>xs. set xs \<subseteq> {..<?n} \<and> m ! i ! j = walk_cost ?w i xs j"
    proof (cases "i = j \<and> ?w i i = PInf")
      case True
      from sound_value_special [OF snd True] diag True have "m ! i ! j = Fin 0"
        by auto
      then show ?thesis unfolding if_P [OF True] .
    next
      case False
      from sound_value_walk [OF snd False]
      have "\<exists>xs. set xs \<subseteq> {..<?n} \<and> m ! i ! j = walk_cost ?w i xs j"
        by blast
      then show ?thesis unfolding if_not_P [OF False] .
    qed
    have c: "m ! i ! j = PInf \<longleftrightarrow>
             i \<noteq> j \<and> (\<forall>xs. set xs \<subseteq> {..<?n} \<longrightarrow> walk_cost ?w i xs j = PInf)"
    proof
      assume inf: "m ! i ! j = PInf"
      with diag have "i \<noteq> j" by auto
      moreover have "walk_cost ?w i xs j = PInf" if "set xs \<subseteq> {..<?n}" for xs
        using low [OF that] inf by simp
      ultimately show "i \<noteq> j \<and> (\<forall>xs. set xs \<subseteq> {..<?n} \<longrightarrow> walk_cost ?w i xs j = PInf)"
        by simp
    next
      assume r: "i \<noteq> j \<and> (\<forall>xs. set xs \<subseteq> {..<?n} \<longrightarrow> walk_cost ?w i xs j = PInf)"
      then have "\<not> (i = j \<and> ?w i i = PInf)" by simp
      from sound_value_walk [OF snd this]
      obtain xs where "set xs \<subseteq> {..<?n}" "m ! i ! j = walk_cost ?w i xs j"
        by blast
      with r show "m ! i ! j = PInf" by simp
    qed
    from low b c show ?thesis by blast
  qed
  from dim have "length m = ?n" "\<And>i. i < ?n \<Longrightarrow> length (m ! i) = ?n"
    by (simp_all add: mdim_def)
  moreover have "floyd graph_ab = Inr [[Fin 0, Fin 5], [PInf, Fin 0]]"
    by code_simp
  ultimately show ?thesis using run cell by blast
qed


theorem floyd_shortest_walks_witness:
  "sorted_wrt (<) (list_nodes graph_ab)
   \<and> list_all (\<lambda>nd. distinct (map dst (edges nd))) graph_ab
   \<and> list_all (\<lambda>nd. list_all (\<lambda>e. find_node graph_ab (dst e)) (edges nd)) graph_ab
   \<and> no_negative_cycle (edge_weight graph_ab) (length graph_ab)
   \<and> list_all (\<lambda>nd. list_all (\<lambda>e. int (length graph_ab) * \<bar>weight e\<bar> < float_limit) (edges nd))
        graph_ab
   \<and> edge_weight graph_ab 1 1 = PInf
   \<and> (\<exists>m. floyd graph_ab = Inr m \<and> m ! 1 ! 1 = Fin 0 \<and> m ! 0 ! 1 \<le> Fin 5)"
proof -
  have h1: "sorted_wrt (<) (list_nodes graph_ab)"
    by (simp add: graph_ab_def)
  have l2: "list_all (\<lambda>nd. distinct (map dst (edges nd))) graph_ab"
    and l3: "list_all (\<lambda>nd. list_all (\<lambda>e. find_node graph_ab (dst e)) (edges nd)) graph_ab"
    by (simp_all add: graph_ab_def)
  from l2 have h2: "\<forall>nd\<in>set graph_ab. distinct (map dst (edges nd))"
    by (simp add: list_all_iff)
  from l3 have h3: "\<forall>nd\<in>set graph_ab. \<forall>e\<in>set (edges nd). find_node graph_ab (dst e)"
    by (simp add: list_all_iff)
  have "\<forall>nd\<in>set graph_ab. \<forall>e\<in>set (edges nd). 0 \<le> weight e"
    by (simp add: graph_ab_def)
  then have h4: "no_negative_cycle (edge_weight graph_ab) (length graph_ab)"
    by (rule edge_weight_nonneg)
  have l5: "list_all (\<lambda>nd. list_all (\<lambda>e. int (length graph_ab) * \<bar>weight e\<bar> < float_limit) (edges nd))
              graph_ab"
    by (simp add: graph_ab_def float_limit_def)
  then have h5: "\<forall>nd\<in>set graph_ab. \<forall>e\<in>set (edges nd).
                   int (length graph_ab) * \<bar>weight e\<bar> < float_limit"
    by (simp add: list_all_iff)
  have w11: "edge_weight graph_ab 1 1 = PInf" and w01: "edge_weight graph_ab 0 1 = Fin 5"
    by (simp_all add: edge_weight_def graph_ab_def)
  have len: "length graph_ab = 2"
    by (simp add: graph_ab_def)
  from floyd_shortest_walks [OF h1 h2 h3 h4 h5] obtain m where
    m: "floyd graph_ab = Inr m"
       "\<forall>i<length graph_ab. length (m ! i) = length graph_ab
        \<and> (\<forall>j<length graph_ab.
              (\<forall>xs. set xs \<subseteq> {..<length graph_ab} \<longrightarrow> m ! i ! j \<le> walk_cost (edge_weight graph_ab) i xs j)
            \<and> (if i = j \<and> edge_weight graph_ab i i = PInf then m ! i ! j = Fin 0
               else \<exists>xs. set xs \<subseteq> {..<length graph_ab} \<and> m ! i ! j = walk_cost (edge_weight graph_ab) i xs j)
            \<and> (m ! i ! j = PInf \<longleftrightarrow>
                 i \<noteq> j \<and> (\<forall>xs. set xs \<subseteq> {..<length graph_ab} \<longrightarrow>
                                walk_cost (edge_weight graph_ab) i xs j = PInf)))"
    by blast
  have i0: "(0::nat) < length graph_ab" and i1: "(1::nat) < length graph_ab"
    by (simp_all add: len)
  note c = m(2) [rule_format, OF i1, THEN conjunct2, rule_format, OF i1,
                 THEN conjunct2, THEN conjunct1]
  have a: "m ! 1 ! 1 = Fin 0" using c unfolding w11 by simp
  note d = m(2) [rule_format, OF i0, THEN conjunct2, rule_format, OF i1,
                 THEN conjunct1, rule_format, of "[]"]
  have b: "m ! 0 ! 1 \<le> Fin 5" using d unfolding walk_cost.simps w01 by simp
  from h1 l2 l3 h4 l5 w11 m(1) a b show ?thesis by blast
qed

end
